theory Spec2Isabelle
  imports Main "HOL-Library.Word" "HOL-Library.Multiset"
begin

section \<open>addfunctionstoindex: the concurrent fingerprint-and-index pipeline\<close>

text \<open>
  The development embeds \<^verbatim>\<open>main\<close> of \<^verbatim>\<open>tools/addfunctionstoindex.cpp\<close>. The job
  lambda pushed to the thread pool is a small state machine with one program point per
  access to a shared object (the atomic counter, the index, the mutex, stdout); the
  thread pool interleaves the steps of the jobs. A schedule is the list of job numbers
  in the order in which they take their steps.
\<close>

subsection \<open>Data\<close>

type_synonym u64 = "64 word"

text \<open>A \<^verbatim>\<open>ParseAPI::Function*\<close>; the tool reads its \<^verbatim>\<open>addr()\<close> only.\<close>

datatype Function = Function (addr: u64)

text \<open>The arguments of \<^verbatim>\<open>SimHashSearchIndex::AddFunction\<close>, in their order.\<close>

record IndexEntry =
  hash_A :: u64
  hash_B :: u64
  entry_file_id :: u64
  address :: u64

text \<open>
  Modelled from the spec: \<^verbatim>\<open>searchbackend/simhashsearchindex.hpp\<close> is not among the
  sources. The specification describes the index as a single capacity-bounded store of
  (fingerprint, executable-id, address) entries with a notion of remaining free capacity
  that only shrinks, whose insert may report an out-of-space condition. The number of
  bytes one insert consumes is a parameter (\<open>entry_cost\<close> below).
\<close>

record SimHashSearchIndex =
  free_space :: nat
  entries :: "IndexEntry list"

datatype bad_alloc = Bad_alloc

definition GetIndexFileFreeSpace :: "SimHashSearchIndex \<Rightarrow> nat" where
  "GetIndexFileFreeSpace idx = free_space idx"

definition AddFunction ::
  "nat \<Rightarrow> u64 \<Rightarrow> u64 \<Rightarrow> u64 \<Rightarrow> u64 \<Rightarrow> SimHashSearchIndex \<Rightarrow> bad_alloc + SimHashSearchIndex" where
  "AddFunction cost a b fid ad idx =
     (if free_space idx < cost then Inl Bad_alloc
      else Inr (idx\<lparr>free_space := free_space idx - cost,
                    entries := entries idx @
                      [\<lparr>hash_A = a, hash_B = b, entry_file_id = fid, address = ad\<rparr>]\<rparr>))"

text \<open>The command-line flags (lines 33 to 38 of the source).\<close>

record flags =
  FLAGS_format :: string
  FLAGS_input :: string
  FLAGS_index :: string
  FLAGS_weights :: string
  FLAGS_minimum_function_size :: u64
  FLAGS_no_shared_blocks :: bool

text \<open>
  The collaborators whose code is outside the tool are parameters of the model:
  \<^item> \<open>GenerateExecutableID path\<close>;
  \<^item> \<open>Load mode path\<close> is \<^verbatim>\<open>disassembly.Load()\<close> followed by \<^verbatim>\<open>code_object->funcs()\<close>:
    \<open>None\<close> when loading fails, the function list otherwise;
  \<^item> \<open>ContainsSharedBasicBlocks f\<close>;
  \<^item> \<open>GetNumberOfBranchingNodes f\<close> is the count on the graph that
    \<^verbatim>\<open>BuildFlowgraph(function, &graph)\<close> builds;
  \<^item> \<open>CalculateFunctionSimHash f n\<close> is the vector that
    \<^verbatim>\<open>hasher.CalculateFunctionSimHash(&generator, n, &hashes)\<close> leaves in \<^verbatim>\<open>hashes\<close>
    for the generator of \<open>f\<close>;
  \<^item> \<open>hardware_concurrency\<close> is the number of workers of the pool;
  \<^item> \<open>index_file path\<close> is the index that \<^verbatim>\<open>SimHashSearchIndex(index_file, false)\<close> opens.
\<close>

record externals =
  GenerateExecutableID :: "string \<Rightarrow> u64"
  Load :: "string \<Rightarrow> string \<Rightarrow> Function list option"
  ContainsSharedBasicBlocks :: "Function \<Rightarrow> bool"
  GetNumberOfBranchingNodes :: "Function \<Rightarrow> u64"
  CalculateFunctionSimHash :: "Function \<Rightarrow> nat \<Rightarrow> u64 list"
  hardware_concurrency :: nat
  index_file :: "string \<Rightarrow> SimHashSearchIndex"
  entry_cost :: nat

text \<open>The lines the tool prints, with the values of their format arguments.\<close>

datatype event =
    Empty_target_binary
  | Executable_id u64
  | No_functions_found
  | Skipping_small nat nat string u64 u64 u64
  | Skipping_full nat nat string u64 u64
  | Adding_function nat nat string u64 u64 u64
  | No_space_left

subsection \<open>The job\<close>

text \<open>What the lambda captures by value or by reference to an immutable object.\<close>

record capture =
  binary_path_string :: string
  file_id :: u64
  func :: Function
  minimum_size :: u64
  number_of_functions :: nat

datatype outcome = Skipped_small | Skipped_full | Added | Out_of_space

text \<open>
  The program points of one job: \<open>Queued\<close> before a worker picks the job up,
  \<open>Counted\<close> after line 108, \<open>SizeOK\<close> after the size test of line 112 has let it
  pass, \<open>Adding\<close> after line 127, \<open>GenLocked\<close> after \<^verbatim>\<open>mutex_pointer->lock()\<close> of
  line 132, \<open>GenBuilt\<close> after the unlock of line 134, \<open>Hashed\<close> after line 138 with
  \<^verbatim>\<open>hash_A\<close> and \<^verbatim>\<open>hash_B\<close>, \<open>InsertLocked\<close> after the \<^verbatim>\<open>lock_guard\<close> of line 140,
  \<open>Done\<close> when the lambda has returned, and \<open>OutOfRange\<close> when line 137 or 138 has
  indexed the vector beyond its size, which C++ leaves undefined. A \<^verbatim>\<open>printf\<close> is
  part of the step of the test that leads to it, and prints the counter as it is then.
\<close>

datatype pc =
    Queued
  | Counted
  | SizeOK
  | Adding
  | GenLocked
  | GenBuilt
  | Hashed u64 u64
  | InsertLocked u64 u64
  | Done outcome
  | OutOfRange

text \<open>
  The shared state. \<open>processed_functions\<close> is the \<^verbatim>\<open>atomic_ulong\<close> (a natural number:
  it counts jobs, far fewer than \<open>2 ^ 64\<close>), \<open>search_index_mutex\<close> holds the job that
  owns the mutex, \<open>busy\<close> is the number of workers that are running a job, \<open>free_seen j\<close>
  is the value that the call of \<^verbatim>\<open>GetIndexFileFreeSpace\<close> of job \<open>j\<close> returned, and
  \<open>ub\<close> says that some job has indexed the hash vector out of range, after which the
  model says nothing more about the process. It is the only undefined behaviour that
  the model marks: the call of \<^verbatim>\<open>GetIndexFileFreeSpace\<close> of line 118, made without the
  mutex, is a step like the others, whatever C++ says of a read that races with an
  insert.
\<close>

record state =
  search_index :: SimHashSearchIndex
  search_index_mutex :: "nat option"
  processed_functions :: nat
  busy :: nat
  pcs :: "nat \<Rightarrow> pc"
  free_seen :: "nat \<Rightarrow> nat option"
  stdout :: "event list"
  ub :: bool

definition job_step :: "externals \<Rightarrow> capture \<Rightarrow> nat \<Rightarrow> state \<Rightarrow> state" where
  "job_step ext c j s =
    (if ub s then s else
     case pcs s j of
       Queued \<Rightarrow>
         if busy s < hardware_concurrency ext
         then s\<lparr>busy := busy s + 1,
                processed_functions := processed_functions s + 1,
                pcs := (pcs s)(j := Counted)\<rparr>
         else s
     | Counted \<Rightarrow>
         let branching_nodes = GetNumberOfBranchingNodes ext (func c) in
         if branching_nodes \<le> minimum_size c
         then s\<lparr>stdout := stdout s @
                  [Skipping_small (processed_functions s) (number_of_functions c)
                     (binary_path_string c) (file_id c) (addr (func c)) branching_nodes],
                pcs := (pcs s)(j := Done Skipped_small),
                busy := busy s - 1\<rparr>
         else s\<lparr>pcs := (pcs s)(j := SizeOK)\<rparr>
     | SizeOK \<Rightarrow>
         let free = GetIndexFileFreeSpace (search_index s) in
         if free < 2 ^ 14
         then s\<lparr>stdout := stdout s @
                  [Skipping_full (processed_functions s) (number_of_functions c)
                     (binary_path_string c) (file_id c) (addr (func c))],
                free_seen := (free_seen s)(j \<mapsto> free),
                pcs := (pcs s)(j := Done Skipped_full),
                busy := busy s - 1\<rparr>
         else s\<lparr>stdout := stdout s @
                  [Adding_function (processed_functions s) (number_of_functions c)
                     (binary_path_string c) (file_id c) (addr (func c))
                     (GetNumberOfBranchingNodes ext (func c))],
                free_seen := (free_seen s)(j \<mapsto> free),
                pcs := (pcs s)(j := Adding)\<rparr>
     | Adding \<Rightarrow>
         if search_index_mutex s = None
         then s\<lparr>search_index_mutex := Some j, pcs := (pcs s)(j := GenLocked)\<rparr>
         else s
     | GenLocked \<Rightarrow>
         s\<lparr>search_index_mutex := None, pcs := (pcs s)(j := GenBuilt)\<rparr>
     | GenBuilt \<Rightarrow>
         let hashes = CalculateFunctionSimHash ext (func c) 128 in
         if length hashes < 2
         then s\<lparr>ub := True, pcs := (pcs s)(j := OutOfRange)\<rparr>
         else s\<lparr>pcs := (pcs s)(j := Hashed (hashes ! 0) (hashes ! 1))\<rparr>
     | Hashed a b \<Rightarrow>
         if search_index_mutex s = None
         then s\<lparr>search_index_mutex := Some j, pcs := (pcs s)(j := InsertLocked a b)\<rparr>
         else s
     | InsertLocked a b \<Rightarrow>
         (case AddFunction (entry_cost ext) a b (file_id c) (addr (func c)) (search_index s) of
            Inr idx \<Rightarrow>
              s\<lparr>search_index := idx,
                search_index_mutex := None,
                pcs := (pcs s)(j := Done Added),
                busy := busy s - 1\<rparr>
          | Inl out_of_space \<Rightarrow>
              s\<lparr>stdout := stdout s @ [No_space_left],
                search_index_mutex := None,
                pcs := (pcs s)(j := Done Out_of_space),
                busy := busy s - 1\<rparr>)
     | Done out \<Rightarrow> s
     | OutOfRange \<Rightarrow> s)"

subsection \<open>The thread pool\<close>

text \<open>
  Modelled from the spec: \<^verbatim>\<open>util/threadpool.hpp\<close> is not among the sources. The
  specification gives the pool a fixed number of workers that pull jobs from a shared
  queue, with no ordering guarantee across jobs, and a \<^verbatim>\<open>drain\<close> that blocks until all
  submitted jobs have completed. \<open>run\<close> lets the jobs named by the schedule take one
  step each, in that order; a job that cannot move (no free worker, the mutex taken, the
  job finished) leaves the state as it is. A job that \<^verbatim>\<open>main\<close> has not pushed yet and
  a job that no worker has picked up yet are both \<open>Queued\<close>: the loop of \<^verbatim>\<open>main\<close>
  shares nothing with the jobs but the queue.
\<close>

fun run :: "externals \<Rightarrow> capture list \<Rightarrow> nat list \<Rightarrow> state \<Rightarrow> state" where
  "run ext cs [] s = s"
| "run ext cs (j # sched) s =
     run ext cs sched (if j < length cs then job_step ext (cs ! j) j s else s)"

definition finished :: "pc \<Rightarrow> bool" where
  "finished p = (case p of Done out \<Rightarrow> True | _ \<Rightarrow> False)"

definition drained :: "capture list \<Rightarrow> state \<Rightarrow> bool" where
  "drained cs s = list_all (\<lambda>j. finished (pcs s j)) [0..<length cs]"

subsection \<open>main\<close>

text \<open>
  The loop of lines 95 to 149: a function that contains shared basic blocks is skipped
  before \<^verbatim>\<open>pool.Push\<close> when the flag is set; every other function gets one job.
\<close>

fun submit :: "externals \<Rightarrow> flags \<Rightarrow> u64 \<Rightarrow> nat \<Rightarrow> Function list \<Rightarrow> capture list" where
  "submit ext fl fid n [] = []"
| "submit ext fl fid n (f # fs) =
     (if FLAGS_no_shared_blocks fl \<and> ContainsSharedBasicBlocks ext f
      then submit ext fl fid n fs
      else \<lparr>binary_path_string = FLAGS_input fl, file_id = fid, func = f,
             minimum_size = FLAGS_minimum_function_size fl,
             number_of_functions = n\<rparr> # submit ext fl fid n fs)"

text \<open>
  The shared objects as lines 72 and 87 to 93 set them up: the index as the file holds
  it, the mutex free, the counter at 0, no worker busy, every job still in the queue.
  \<open>out\<close> is what has been printed so far.
\<close>

definition initial :: "externals \<Rightarrow> flags \<Rightarrow> event list \<Rightarrow> state" where
  "initial ext fl out =
     \<lparr>search_index = index_file ext (FLAGS_index fl),
      search_index_mutex = None,
      processed_functions = 0,
      busy = 0,
      pcs = (\<lambda>j. Queued),
      free_seen = (\<lambda>j. None),
      stdout = out,
      ub = False\<rparr>"

definition jobs :: "externals \<Rightarrow> flags \<Rightarrow> Function list \<Rightarrow> capture list" where
  "jobs ext fl functions =
     submit ext fl (GenerateExecutableID ext (FLAGS_input fl)) (length functions) functions"

text \<open>
  The state of the process after the jobs of \<open>functions\<close> have taken the steps of
  the schedule.
\<close>

definition pipeline :: "externals \<Rightarrow> flags \<Rightarrow> Function list \<Rightarrow> nat list \<Rightarrow> state" where
  "pipeline ext fl functions sched =
     run ext (jobs ext fl functions) sched
       (initial ext fl [Executable_id (GenerateExecutableID ext (FLAGS_input fl))])"

text \<open>
  The result of \<^verbatim>\<open>main\<close> under a schedule: \<open>Exit code s\<close> when the process ends with
  that status in state \<open>s\<close>, \<open>Undefined_behaviour\<close> when a job has indexed the hash
  vector out of range, \<open>Waiting\<close> when \<^verbatim>\<open>pool.Stop(true)\<close> has not returned because the
  schedule leaves jobs unfinished.
\<close>

datatype result = Exit int state | Undefined_behaviour state | Waiting state

definition main :: "externals \<Rightarrow> flags \<Rightarrow> nat list \<Rightarrow> result" where
  "main ext fl sched =
    (if FLAGS_input fl = [] then Exit (- 1) (initial ext fl [Empty_target_binary])
     else
       case Load ext (FLAGS_format fl) (FLAGS_input fl) of
         None \<Rightarrow>
           Exit 1 (initial ext fl [Executable_id (GenerateExecutableID ext (FLAGS_input fl))])
       | Some functions \<Rightarrow>
           if length functions = 0
           then Exit (- 1)
                  (initial ext fl
                     [Executable_id (GenerateExecutableID ext (FLAGS_input fl)),
                      No_functions_found])
           else
             let s = pipeline ext fl functions sched
             in if ub s then Undefined_behaviour s
                else if drained (jobs ext fl functions) s then Exit 0 s
                else Waiting s)"

subsection \<open>Vocabulary of the properties\<close>

text \<open>
  \<open>big_enough\<close> is the size test of line 112 passed; \<open>hashes_of\<close> is the vector
  that the call of line 136 leaves in \<^verbatim>\<open>hashes\<close>; \<open>job_entry ext c\<close> is the entry
  that the job with capture \<open>c\<close> passes to \<^verbatim>\<open>AddFunction\<close>.
\<close>

definition big_enough :: "externals \<Rightarrow> capture \<Rightarrow> bool" where
  "big_enough ext c = (minimum_size c < GetNumberOfBranchingNodes ext (func c))"

definition hashes_of :: "externals \<Rightarrow> capture \<Rightarrow> u64 list" where
  "hashes_of ext c = CalculateFunctionSimHash ext (func c) 128"

definition job_entry :: "externals \<Rightarrow> capture \<Rightarrow> IndexEntry" where
  "job_entry ext c =
     \<lparr>hash_A = hashes_of ext c ! 0, hash_B = hashes_of ext c ! 1,
      entry_file_id = file_id c, address = addr (func c)\<rparr>"

text \<open>
  \<open>written idx0 s\<close> is the list of entries that the run has added to the index that
  was \<open>idx0\<close> when it was opened, and \<open>added_jobs\<close> the jobs whose insert has
  returned. \<open>saw_room\<close> and \<open>saw_full\<close> say what the capacity check of a job has
  read.
\<close>

definition written :: "SimHashSearchIndex \<Rightarrow> state \<Rightarrow> IndexEntry list" where
  "written idx0 s = drop (length (entries idx0)) (entries (search_index s))"

definition added_jobs :: "capture list \<Rightarrow> state \<Rightarrow> nat list" where
  "added_jobs cs s = filter (\<lambda>j. pcs s j = Done Added) [0..<length cs]"

definition saw_room :: "nat option \<Rightarrow> bool" where
  "saw_room v = (case v of None \<Rightarrow> False | Some free \<Rightarrow> 2 ^ 14 \<le> free)"

definition saw_full :: "nat option \<Rightarrow> bool" where
  "saw_full v = (case v of None \<Rightarrow> False | Some free \<Rightarrow> free < 2 ^ 14)"

text \<open>
  \<open>reports c out e\<close>: the printed line \<open>e\<close> is the one that a job with capture
  \<open>c\<close> prints for the outcome \<open>out\<close> (the "Adding function" line for \<open>Added\<close>;
  the out-of-space line names no function). \<open>reported\<close>: such a line is in the
  output.
\<close>

fun reports :: "capture \<Rightarrow> outcome \<Rightarrow> event \<Rightarrow> bool" where
  "reports c Skipped_small (Skipping_small p n path fid a bn) =
     (n = number_of_functions c \<and> path = binary_path_string c \<and> fid = file_id c \<and>
      a = addr (func c))"
| "reports c Skipped_full (Skipping_full p n path fid a) =
     (n = number_of_functions c \<and> path = binary_path_string c \<and> fid = file_id c \<and>
      a = addr (func c))"
| "reports c Added (Adding_function p n path fid a bn) =
     (n = number_of_functions c \<and> path = binary_path_string c \<and> fid = file_id c \<and>
      a = addr (func c))"
| "reports c Out_of_space No_space_left = True"
| "reports c out e = False"

definition reported :: "capture \<Rightarrow> outcome \<Rightarrow> event list \<Rightarrow> bool" where
  "reported c out evs = list_ex (reports c out) evs"

text \<open>
  The program points at which a job owns the mutex, those a job can be at when it has
  neither extracted nor inserted, and those at which a worker is running the job.
\<close>

fun holds_mutex :: "pc \<Rightarrow> bool" where
  "holds_mutex GenLocked = True"
| "holds_mutex (InsertLocked a b) = True"
| "holds_mutex p = False"

fun before_extraction :: "pc \<Rightarrow> bool" where
  "before_extraction Queued = True"
| "before_extraction Counted = True"
| "before_extraction SizeOK = True"
| "before_extraction (Done Skipped_small) = True"
| "before_extraction (Done Skipped_full) = True"
| "before_extraction p = False"

fun in_progress :: "pc \<Rightarrow> bool" where
  "in_progress Queued = False"
| "in_progress (Done out) = False"
| "in_progress OutOfRange = False"
| "in_progress p = True"


subsection \<open>Invariants of the interleaved execution\<close>

text \<open>
  The mutex is owned by exactly the job that stands inside one of the two locked
  sections.
\<close>

definition mutex_inv :: "state \<Rightarrow> bool" where
  "mutex_inv s = (\<forall>j. holds_mutex (pcs s j) \<longleftrightarrow> search_index_mutex s = Some j)"

text \<open>
  What the program point of a job tells about the tests it has passed: the annotation
  of the job, in the style of an Owicki-Gries proof outline.
\<close>

fun pc_ok :: "externals \<Rightarrow> capture \<Rightarrow> nat option \<Rightarrow> pc \<Rightarrow> bool" where
  "pc_ok ext c v Queued = True"
| "pc_ok ext c v Counted = True"
| "pc_ok ext c v SizeOK = big_enough ext c"
| "pc_ok ext c v Adding = (big_enough ext c \<and> saw_room v)"
| "pc_ok ext c v GenLocked = (big_enough ext c \<and> saw_room v)"
| "pc_ok ext c v GenBuilt = (big_enough ext c \<and> saw_room v)"
| "pc_ok ext c v (Hashed a b) =
     (big_enough ext c \<and> saw_room v \<and> 2 \<le> length (hashes_of ext c) \<and>
      a = hashes_of ext c ! 0 \<and> b = hashes_of ext c ! 1)"
| "pc_ok ext c v (InsertLocked a b) =
     (big_enough ext c \<and> saw_room v \<and> 2 \<le> length (hashes_of ext c) \<and>
      a = hashes_of ext c ! 0 \<and> b = hashes_of ext c ! 1)"
| "pc_ok ext c v (Done Skipped_small) = (\<not> big_enough ext c)"
| "pc_ok ext c v (Done Skipped_full) = (big_enough ext c \<and> saw_full v)"
| "pc_ok ext c v (Done Added) =
     (big_enough ext c \<and> saw_room v \<and> 2 \<le> length (hashes_of ext c))"
| "pc_ok ext c v (Done Out_of_space) =
     (big_enough ext c \<and> saw_room v \<and> 2 \<le> length (hashes_of ext c))"
| "pc_ok ext c v OutOfRange =
     (big_enough ext c \<and> saw_room v \<and> length (hashes_of ext c) < 2)"

definition local_inv :: "externals \<Rightarrow> capture list \<Rightarrow> state \<Rightarrow> bool" where
  "local_inv ext cs s = (\<forall>j<length cs. pc_ok ext (cs ! j) (free_seen s j) (pcs s j))"

text \<open>
  The entries added by the run are, up to their order, those of the jobs whose insert
  has returned; the counter is the number of jobs that have left the queue; the index
  keeps room for the inserts still to come when it had room for all of them at the
  start; nothing is extracted or inserted when the index was full at the start; the
  flag \<open>ub\<close> is set exactly when a job stands at the out-of-range read; a job has
  printed the line of the program point it stands at; the number of busy workers is the
  number of jobs in progress.
\<close>

definition entries_inv :: "externals \<Rightarrow> capture list \<Rightarrow> SimHashSearchIndex \<Rightarrow> state \<Rightarrow> bool" where
  "entries_inv ext cs idx0 s =
     (entries (search_index s) = entries idx0 @ written idx0 s \<and>
      mset (written idx0 s) = mset (map (\<lambda>j. job_entry ext (cs ! j)) (added_jobs cs s)))"

definition count_inv :: "capture list \<Rightarrow> state \<Rightarrow> bool" where
  "count_inv cs s =
     (processed_functions s = length (filter (\<lambda>j. pcs s j \<noteq> Queued) [0..<length cs]))"

definition room_inv :: "externals \<Rightarrow> capture list \<Rightarrow> state \<Rightarrow> bool" where
  "room_inv ext cs s =
     (2 ^ 14 + entry_cost ext * length (filter (\<lambda>j. pcs s j \<noteq> Done Added) [0..<length cs])
        \<le> free_space (search_index s) \<and>
      (\<forall>j. pcs s j \<noteq> Done Skipped_full \<and> pcs s j \<noteq> Done Out_of_space))"

definition full_inv :: "SimHashSearchIndex \<Rightarrow> state \<Rightarrow> bool" where
  "full_inv idx0 s = (search_index s = idx0 \<and> \<not> ub s \<and> (\<forall>j. before_extraction (pcs s j)))"

definition ub_inv :: "capture list \<Rightarrow> state \<Rightarrow> bool" where
  "ub_inv cs s = (ub s \<longleftrightarrow> (\<exists>j<length cs. pcs s j = OutOfRange))"

fun printed :: "pc \<Rightarrow> outcome option" where
  "printed Queued = None"
| "printed Counted = None"
| "printed SizeOK = None"
| "printed (Done out) = Some out"
| "printed p = Some Added"

definition report_inv :: "capture list \<Rightarrow> state \<Rightarrow> bool" where
  "report_inv cs s =
     (\<forall>j<length cs. case printed (pcs s j) of None \<Rightarrow> True
        | Some out \<Rightarrow> reported (cs ! j) out (stdout s))"

definition busy_inv :: "capture list \<Rightarrow> state \<Rightarrow> bool" where
  "busy_inv cs s =
     (\<not> ub s \<longrightarrow> busy s = length (filter (\<lambda>j. in_progress (pcs s j)) [0..<length cs]))"

subsection \<open>Progress\<close>

text \<open>
  \<open>rank\<close> bounds the number of steps that a job has still to take. \<open>solo\<close>
  describes a state in which job \<open>j\<close> is the only one in progress, \<open>idle\<close> one in
  which the jobs below \<open>k\<close> have finished and the others have not started, and
  \<open>good\<close> collects what the proof of progress needs of a reachable state.
\<close>

fun rank :: "pc \<Rightarrow> nat" where
  "rank Queued = 8"
| "rank Counted = 7"
| "rank SizeOK = 6"
| "rank Adding = 5"
| "rank GenLocked = 4"
| "rank GenBuilt = 3"
| "rank (Hashed a b) = 2"
| "rank (InsertLocked a b) = 1"
| "rank (Done out) = 0"
| "rank OutOfRange = 0"

definition total_rank :: "capture list \<Rightarrow> state \<Rightarrow> nat" where
  "total_rank cs s = (\<Sum>j<length cs. rank (pcs s j))"



definition good :: "capture list \<Rightarrow> state \<Rightarrow> bool" where
  "good cs s =
     (\<not> ub s \<and> mutex_inv s \<and> busy_inv cs s \<and>
      (\<forall>j. pcs s j \<noteq> OutOfRange) \<and> (\<forall>j\<ge>length cs. pcs s j = Queued))"

subsection \<open>Scenario A of the specification: three functions, threshold 5\<close>

definition functions_A :: "Function list" where
  "functions_A = [Function 0x1000, Function 0x2000, Function 0x3000]"

definition ext_A :: externals where
  "ext_A =
     \<lparr>GenerateExecutableID = (\<lambda>path. 0xABCD),
      Load = (\<lambda>mode path. Some functions_A),
      ContainsSharedBasicBlocks = (\<lambda>f. f = Function 0x2000),
      GetNumberOfBranchingNodes = (\<lambda>f. if f = Function 0x1000 then 2 else 10),
      CalculateFunctionSimHash = (\<lambda>f n. [addr f + 1, addr f + 2]),
      hardware_concurrency = 2,
      index_file = (\<lambda>path. \<lparr>free_space = 1048576, entries = []\<rparr>),
      entry_cost = 2048\<rparr>"

definition flags_A :: flags where
  "flags_A =
     \<lparr>FLAGS_format = ''PE'', FLAGS_input = ''a.exe'', FLAGS_index = ''./similarity.index'',
      FLAGS_weights = ''weights.txt'', FLAGS_minimum_function_size = 5,
      FLAGS_no_shared_blocks = True\<rparr>"

definition sched_A :: "nat list" where
  "sched_A = [0, 0, 1, 1, 1, 1, 1, 1, 1, 1]"

definition three_hashes :: "Function \<Rightarrow> nat \<Rightarrow> u64 list" where
  "three_hashes f n = [addr f + 1, addr f + 2, 99]"

subsection \<open>Two functions above the threshold, an index with room, two schedules\<close>

text \<open>
  The first schedule runs job 0 to its end and then job 1; in the second, job 1 takes
  the lock for its insert before job 0.
\<close>

definition functions_B :: "Function list" where
  "functions_B = [Function 0x1000, Function 0x2000]"

definition ext_B :: externals where
  "ext_B =
     \<lparr>GenerateExecutableID = (\<lambda>path. 0xABCD),
      Load = (\<lambda>mode path. Some functions_B),
      ContainsSharedBasicBlocks = (\<lambda>f. False),
      GetNumberOfBranchingNodes = (\<lambda>f. 10),
      CalculateFunctionSimHash = (\<lambda>f n. [addr f + 1, addr f + 2]),
      hardware_concurrency = 2,
      index_file = (\<lambda>path. \<lparr>free_space = 1048576, entries = []\<rparr>),
      entry_cost = 2048\<rparr>"

definition flags_R :: flags where
  "flags_R =
     \<lparr>FLAGS_format = ''PE'', FLAGS_input = ''a.exe'', FLAGS_index = ''./similarity.index'',
      FLAGS_weights = ''weights.txt'', FLAGS_minimum_function_size = 5,
      FLAGS_no_shared_blocks = False\<rparr>"

definition sched_B1 :: "nat list" where
  "sched_B1 = [0, 0, 0, 0, 0, 0, 0, 0, 1, 1, 1, 1, 1, 1, 1, 1]"

definition sched_B2 :: "nat list" where
  "sched_B2 = [1, 0, 1, 0, 1, 0, 1, 1, 1, 1, 1, 0, 0, 0, 0, 0]"

subsection \<open>The race: five functions, 16 KiB free, 4 KiB for each insert\<close>

text \<open>
  Under \<open>sched_R\<close> the five jobs pass their capacity checks before any of them
  inserts; then jobs 0 to 3 insert, and job 4 has taken the lock for its insert.
  Under \<open>sched_race\<close> job 0 has taken the lock for its insert and job 1 stands
  before its capacity check.
\<close>

definition functions_R :: "Function list" where
  "functions_R =
     [Function 0x1000, Function 0x2000, Function 0x3000, Function 0x4000, Function 0x5000]"

definition ext_R :: externals where
  "ext_R =
     \<lparr>GenerateExecutableID = (\<lambda>path. 0xABCD),
      Load = (\<lambda>mode path. Some functions_R),
      ContainsSharedBasicBlocks = (\<lambda>f. False),
      GetNumberOfBranchingNodes = (\<lambda>f. 10),
      CalculateFunctionSimHash = (\<lambda>f n. [addr f + 1, addr f + 2]),
      hardware_concurrency = 8,
      index_file = (\<lambda>path. \<lparr>free_space = 16384, entries = []\<rparr>),
      entry_cost = 4096\<rparr>"

definition sched_R :: "nat list" where
  "sched_R = [0, 0, 0, 1, 1, 1, 2, 2, 2, 3, 3, 3, 4, 4, 4,
              0, 0, 0, 0, 0, 1, 1, 1, 1, 1, 2, 2, 2, 2, 2, 3, 3, 3, 3, 3, 4, 4, 4, 4]"

definition sched_race :: "nat list" where
  "sched_race = [0, 0, 0, 0, 0, 0, 0, 1, 1]"

subsection \<open>Scenario B of the specification (8 KiB free) and scenario C (a one-element result)\<close>

definition ext_F :: externals where
  "ext_F = ext_A\<lparr>index_file := (\<lambda>path. \<lparr>free_space = 8192, entries = []\<rparr>)\<rparr>"

definition ext_U :: externals where
  "ext_U = ext_A\<lparr>CalculateFunctionSimHash := (\<lambda>f n. [addr f + 1])\<rparr>"

section \<open>Steps and runs\<close>

text \<open>
  A property that holds at the start and that every step of every job keeps holds
  after every schedule.
\<close>

lemma run_append: "run ext cs (xs @ ys) s = run ext cs ys (run ext cs xs s)"
  by (induction xs arbitrary: s) simp_all

lemma run_invariant:
  assumes "P s" and "\<And>t j. P t \<Longrightarrow> j < length cs \<Longrightarrow> P (job_step ext (cs ! j) j t)"
  shows "P (run ext cs sched s)"
  using assms(1) by (induction sched arbitrary: s) (simp_all add: assms(2))

text \<open>
  A step of job \<open>j\<close> leaves the program points and the capacity readings of the
  other jobs alone. The steps that change the index, the counter, the output or the
  flag for undefined behaviour, written out.
\<close>

lemma job_step_others:
  "i \<noteq> j \<Longrightarrow> pcs (job_step ext c j s) i = pcs s i \<and> free_seen (job_step ext c j s) i = free_seen s i"
  by (auto simp: job_step_def Let_def split: pc.splits sum.splits if_splits)

lemma step_insert:
  "\<not> ub s \<Longrightarrow> pcs s j = InsertLocked a b \<Longrightarrow> entry_cost ext \<le> free_space (search_index s) \<Longrightarrow>
   job_step ext c j s =
     s\<lparr>search_index := (search_index s)
          \<lparr>free_space := free_space (search_index s) - entry_cost ext,
           entries := entries (search_index s) @
             [\<lparr>hash_A = a, hash_B = b, entry_file_id = file_id c, address = addr (func c)\<rparr>]\<rparr>,
       search_index_mutex := None,
       pcs := (pcs s)(j := Done Added),
       busy := busy s - 1\<rparr>"
  by (simp add: job_step_def AddFunction_def)

lemma step_no_insert:
  "ub s \<or> (\<forall>a b. pcs s j \<noteq> InsertLocked a b) \<or> free_space (search_index s) < entry_cost ext \<Longrightarrow>
   search_index (job_step ext c j s) = search_index s \<and>
   (pcs (job_step ext c j s) i = Done Added \<longleftrightarrow> pcs s i = Done Added)"
  by (cases "pcs s j") (auto simp: job_step_def Let_def AddFunction_def split: if_splits)

lemma step_out_of_space:
  "\<not> ub s \<Longrightarrow> pcs s j = InsertLocked a b \<Longrightarrow> free_space (search_index s) < entry_cost ext \<Longrightarrow>
   job_step ext c j s =
     s\<lparr>stdout := stdout s @ [No_space_left],
       search_index_mutex := None,
       pcs := (pcs s)(j := Done Out_of_space),
       busy := busy s - 1\<rparr>"
  by (simp add: job_step_def AddFunction_def)

lemma step_start:
  "\<not> ub s \<Longrightarrow> pcs s j = Queued \<Longrightarrow> busy s < hardware_concurrency ext \<Longrightarrow>
   job_step ext c j s =
     s\<lparr>busy := busy s + 1, processed_functions := processed_functions s + 1,
       pcs := (pcs s)(j := Counted)\<rparr>"
  by (simp add: job_step_def)

lemma step_no_start:
  "ub s \<or> pcs s j \<noteq> Queued \<or> \<not> busy s < hardware_concurrency ext \<Longrightarrow>
   processed_functions (job_step ext c j s) = processed_functions s \<and>
   (pcs (job_step ext c j s) i = Queued \<longleftrightarrow> pcs s i = Queued)"
  by (cases "pcs s j") (auto simp: job_step_def Let_def AddFunction_def split: if_splits sum.splits)

lemma step_keeps_defined:
  assumes "2 \<le> length (CalculateFunctionSimHash ext (func c) 128)" and "\<not> ub s"
  shows "\<not> ub (job_step ext c j s)"
  using assms
  by (cases "pcs s j")
     (auto simp: job_step_def Let_def AddFunction_def split: if_splits sum.splits)

lemma stdout_grows: "\<exists>evs. stdout (job_step ext c j s) = stdout s @ evs"
  by (cases "pcs s j")
     (auto simp: job_step_def Let_def AddFunction_def split: if_splits sum.splits)

lemma finished_iff: "finished p \<longleftrightarrow> (\<exists>out. p = Done out)"
  by (cases p) (simp_all add: finished_def)

lemma drained_iff: "drained cs s \<longleftrightarrow> (\<forall>j<length cs. \<exists>out. pcs s j = Done out)"
  by (auto simp: drained_def list_all_iff finished_iff)

text \<open>
  Facts about lists, multisets and sums over the job numbers.
\<close>

lemma mset_filter_upt_add:
  "j < n \<Longrightarrow> \<not> P j \<Longrightarrow>
   mset (filter (\<lambda>i. i = j \<or> P i) [0..<n]) = add_mset j (mset (filter P [0..<n]))"
  by (induction n) (auto simp: less_Suc_eq)

lemma length_filter_upt_add:
  "j < n \<Longrightarrow> \<not> P j \<Longrightarrow>
   length (filter (\<lambda>i. i = j \<or> P i) [0..<n]) = Suc (length (filter P [0..<n]))"
  using mset_filter_upt_add [of j n P] by (metis size_add_mset size_mset)

lemma length_filter_upt_del:
  "j < n \<Longrightarrow> P j \<Longrightarrow>
   Suc (length (filter (\<lambda>i. i \<noteq> j \<and> P i) [0..<n])) = length (filter P [0..<n])"
  using length_filter_upt_add [of j n "\<lambda>i. i \<noteq> j \<and> P i"]
  by (simp add: conj_disj_distribL cong: filter_cong) (metis (mono_tags, lifting) filter_cong)

lemma filter_upt_same:
  assumes "\<And>i. i \<noteq> j \<Longrightarrow> g i = f i" and "g j = f j"
  shows "filter g [0..<n] = filter f [0..<n]"
proof -
  have "g i = f i" for i
    by (cases "i = j") (simp_all add: assms)
  then have "g = f" by (intro ext)
  then show ?thesis by simp
qed

lemma mset_singleton_list: "mset xs = {#x#} \<Longrightarrow> xs = [x]"
  by (cases xs) auto

lemma rank_sum_less:
  assumes "(j :: nat) < n" and "g j < f j" and "\<And>i. i \<noteq> j \<Longrightarrow> g i = f i"
  shows "(\<Sum>i<n. g i) < (\<Sum>i<n. (f i :: nat))"
proof -
  have "g i \<le> f i" for i
    using assms(2,3) by (cases "i = j") simp_all
  then have "\<forall>i\<in>{..<n}. g i \<le> f i" by blast
  moreover have "\<exists>i\<in>{..<n}. g i < f i"
    using assms(1,2) by blast
  ultimately show ?thesis
    by (intro sum_strict_mono_ex1) simp_all
qed

lemma take_2_facts:
  assumes "take 2 xs = take 2 ys"
  shows "(length xs < 2 \<longleftrightarrow> length ys < 2) \<and>
         (2 \<le> length xs \<longrightarrow> xs ! 0 = ys ! 0 \<and> xs ! 1 = ys ! 1)"
proof -
  have "length (take 2 xs) = length (take 2 ys)" using assms by simp
  then have l: "length xs < 2 \<longleftrightarrow> length ys < 2" by (simp add: min_def split: if_splits)
  have "take 2 xs ! i = take 2 ys ! i" for i using assms by simp
  from this [of 0] this [of 1] have "2 \<le> length xs \<longrightarrow> xs ! 0 = ys ! 0 \<and> xs ! 1 = ys ! 1"
    by simp
  with l show ?thesis by blast
qed

lemma addr_eq_iff: "addr f = addr g \<longleftrightarrow> f = g"
  by (auto intro: Function.expand)

section \<open>Every step keeps the invariants\<close>

lemma mutex_inv_step:
  assumes "mutex_inv s"
  shows "mutex_inv (job_step ext c j s)"
proof -
  have a: "holds_mutex (pcs s i) \<longleftrightarrow> search_index_mutex s = Some i" for i
    using assms by (simp add: mutex_inv_def)
  show ?thesis
    unfolding mutex_inv_def
  proof
    fix i
    show "holds_mutex (pcs (job_step ext c j s) i) = (search_index_mutex (job_step ext c j s) = Some i)"
      using a [of i] a [of j]
      by (cases "pcs s j")
         (auto simp: job_step_def Let_def AddFunction_def split: sum.splits if_splits)
  qed
qed

lemma pc_ok_step:
  "pc_ok ext c (free_seen s j) (pcs s j) \<Longrightarrow>
   pc_ok ext c (free_seen (job_step ext c j s) j) (pcs (job_step ext c j s) j)"
  by (auto simp: job_step_def Let_def AddFunction_def big_enough_def hashes_of_def
      saw_room_def saw_full_def GetIndexFileFreeSpace_def not_le
      split: pc.splits sum.splits if_splits)

lemma local_inv_step:
  "local_inv ext cs s \<Longrightarrow> j < length cs \<Longrightarrow> local_inv ext cs (job_step ext (cs ! j) j s)"
  unfolding local_inv_def
proof (intro allI impI)
  fix i
  assume inv: "\<forall>j<length cs. pc_ok ext (cs ! j) (free_seen s j) (pcs s j)"
    and j: "j < length cs" and i: "i < length cs"
  show "pc_ok ext (cs ! i) (free_seen (job_step ext (cs ! j) j s) i) (pcs (job_step ext (cs ! j) j s) i)"
  proof (cases "i = j")
    case True
    with inv j show ?thesis using pc_ok_step by blast
  next
    case False
    with inv i show ?thesis by (simp add: job_step_others)
  qed
qed

lemma entries_inv_step:
  assumes loc: "local_inv ext cs s" and inv: "entries_inv ext cs idx0 s" and j: "j < length cs"
  shows "entries_inv ext cs idx0 (job_step ext (cs ! j) j s)"
proof (cases "ub s \<or> (\<forall>a b. pcs s j \<noteq> InsertLocked a b) \<or> free_space (search_index s) < entry_cost ext")
  case True
  from step_no_insert [OF True] have
    idx: "search_index (job_step ext (cs ! j) j s) = search_index s" and
    pc: "\<And>i. pcs (job_step ext (cs ! j) j s) i = Done Added \<longleftrightarrow> pcs s i = Done Added"
    by blast+
  from inv show ?thesis
    by (simp add: entries_inv_def written_def added_jobs_def idx pc)
next
  case False
  then obtain a b where
    nub: "\<not> ub s" and at: "pcs s j = InsertLocked a b" and
    room: "entry_cost ext \<le> free_space (search_index s)"
    by (auto simp: not_less)
  from loc j at have ab: "a = hashes_of ext (cs ! j) ! 0" "b = hashes_of ext (cs ! j) ! 1"
    by (auto simp: local_inv_def dest!: spec [of _ j])
  let ?s' = "job_step ext (cs ! j) j s"
  have pcs': "pcs ?s' = (pcs s)(j := Done Added)"
    and ent': "entries (search_index ?s') = entries (search_index s) @ [job_entry ext (cs ! j)]"
    by (simp_all add: step_insert [OF nub at room] job_entry_def ab)
  have notadded: "\<not> pcs s j = Done Added" using at by simp
  have "added_jobs cs ?s' = filter (\<lambda>i. i = j \<or> pcs s i = Done Added) [0..<length cs]"
    unfolding added_jobs_def pcs' by (rule filter_cong) auto
  moreover have "mset (filter (\<lambda>i. i = j \<or> pcs s i = Done Added) [0..<length cs]) =
           add_mset j (mset (filter (\<lambda>i. pcs s i = Done Added) [0..<length cs]))"
    using mset_filter_upt_add [of j "length cs" "\<lambda>i. pcs s i = Done Added"] j notadded
    by simp
  ultimately have aj: "mset (added_jobs cs ?s') = add_mset j (mset (added_jobs cs s))"
    by (simp only: added_jobs_def)
  have e: "entries (search_index s) = entries idx0 @ written idx0 s"
    and w: "mset (written idx0 s) = mset (map (\<lambda>j. job_entry ext (cs ! j)) (added_jobs cs s))"
    using inv by (simp_all add: entries_inv_def)
  have len: "length (entries idx0) \<le> length (entries (search_index s))"
    using e by (metis le_add1 length_append)
  have w': "written idx0 ?s' = written idx0 s @ [job_entry ext (cs ! j)]"
    using len by (simp add: written_def ent')
  have "entries (search_index ?s') = entries idx0 @ written idx0 ?s'"
    using e by (simp add: ent' w')
  moreover have "mset (written idx0 ?s') =
      mset (map (\<lambda>j. job_entry ext (cs ! j)) (added_jobs cs ?s'))"
    using w by (simp add: w' aj)
  ultimately show ?thesis
    by (simp add: entries_inv_def)
qed

lemma count_inv_step:
  assumes inv: "count_inv cs s" and j: "j < length cs"
  shows "count_inv cs (job_step ext (cs ! j) j s)"
proof (cases "ub s \<or> pcs s j \<noteq> Queued \<or> \<not> busy s < hardware_concurrency ext")
  case True
  from step_no_start [OF True] inv show ?thesis
    by (simp add: count_inv_def)
next
  case False
  then have st: "\<not> ub s" "pcs s j = Queued" "busy s < hardware_concurrency ext"
    by auto
  have "filter (\<lambda>i. ((pcs s)(j := Counted)) i \<noteq> Queued) [0..<length cs] =
        filter (\<lambda>i. i = j \<or> pcs s i \<noteq> Queued) [0..<length cs]"
    by (rule filter_cong) auto
  moreover have "length (filter (\<lambda>i. i = j \<or> pcs s i \<noteq> Queued) [0..<length cs]) =
        Suc (length (filter (\<lambda>i. pcs s i \<noteq> Queued) [0..<length cs]))"
    using length_filter_upt_add [of j "length cs" "\<lambda>i. pcs s i \<noteq> Queued"] j st(2) by simp
  ultimately show ?thesis
    using inv unfolding count_inv_def step_start [OF st] by simp
qed

lemma step_never_full:
  assumes "2 ^ 14 \<le> free_space (search_index s)"
    and "(\<exists>a b. pcs s j = InsertLocked a b) \<longrightarrow> entry_cost ext \<le> free_space (search_index s)"
    and "pcs s i \<noteq> Done Skipped_full \<and> pcs s i \<noteq> Done Out_of_space"
  shows "pcs (job_step ext c j s) i \<noteq> Done Skipped_full \<and>
         pcs (job_step ext c j s) i \<noteq> Done Out_of_space"
  using assms
  by (cases "pcs s j")
     (auto simp: job_step_def Let_def AddFunction_def GetIndexFileFreeSpace_def split: if_splits)

lemma room_inv_step:
  assumes inv: "room_inv ext cs s" and j: "j < length cs"
  shows "room_inv ext cs (job_step ext (cs ! j) j s)"
proof -
  let ?n = "length (filter (\<lambda>j. pcs s j \<noteq> Done Added) [0..<length cs])"
  have free: "2 ^ 14 + entry_cost ext * ?n \<le> free_space (search_index s)"
    and nf: "\<And>i. pcs s i \<noteq> Done Skipped_full \<and> pcs s i \<noteq> Done Out_of_space"
    using inv by (simp_all add: room_inv_def)
  have ins: "entry_cost ext \<le> free_space (search_index s)" if "pcs s j = InsertLocked a b" for a b
  proof -
    have "j \<in> set (filter (\<lambda>j. pcs s j \<noteq> Done Added) [0..<length cs])"
      using that j by simp
    then have "0 < ?n" by (rule length_pos_if_in_set)
    then have "1 \<le> ?n" by (simp add: Suc_le_eq)
    then have "entry_cost ext * 1 \<le> entry_cost ext * ?n"
      by (rule mult_le_mono2)
    then have "entry_cost ext \<le> entry_cost ext * ?n" by simp
    with free show ?thesis by linarith
  qed
  have never: "pcs (job_step ext (cs ! j) j s) i \<noteq> Done Skipped_full \<and>
         pcs (job_step ext (cs ! j) j s) i \<noteq> Done Out_of_space" for i
    by (rule step_never_full) (use free nf ins in auto)
  show ?thesis
  proof (cases "ub s \<or> (\<forall>a b. pcs s j \<noteq> InsertLocked a b)")
    case True
    then have "ub s \<or> (\<forall>a b. pcs s j \<noteq> InsertLocked a b) \<or>
        free_space (search_index s) < entry_cost ext" by blast
    from step_no_insert [OF this] free never show ?thesis
      by (simp add: room_inv_def)
  next
    case False
    then obtain a b where st: "\<not> ub s" "pcs s j = InsertLocked a b" by auto
    have room: "entry_cost ext \<le> free_space (search_index s)" using ins st(2) .
    have "filter (\<lambda>i. ((pcs s)(j := Done Added)) i \<noteq> Done Added) [0..<length cs] =
          filter (\<lambda>i. i \<noteq> j \<and> pcs s i \<noteq> Done Added) [0..<length cs]"
      by (rule filter_cong) auto
    moreover have "Suc (length (filter (\<lambda>i. i \<noteq> j \<and> pcs s i \<noteq> Done Added) [0..<length cs])) = ?n"
      using length_filter_upt_del [of j "length cs" "\<lambda>i. pcs s i \<noteq> Done Added"] j st(2) by simp
    ultimately have
      "Suc (length (filter (\<lambda>i. pcs (job_step ext (cs ! j) j s) i \<noteq> Done Added) [0..<length cs])) = ?n"
      by (simp add: step_insert [OF st room])
    moreover have "free_space (search_index (job_step ext (cs ! j) j s)) =
        free_space (search_index s) - entry_cost ext"
      by (simp add: step_insert [OF st room])
    ultimately have "2 ^ 14 + entry_cost ext *
        length (filter (\<lambda>i. pcs (job_step ext (cs ! j) j s) i \<noteq> Done Added) [0..<length cs])
        \<le> free_space (search_index (job_step ext (cs ! j) j s))"
      using free room by (metis add.assoc add_le_imp_le_diff add.commute mult_Suc_right)
    with never show ?thesis
      unfolding room_inv_def by blast
  qed
qed

lemma full_inv_step:
  assumes "free_space idx0 < 2 ^ 14" and "full_inv idx0 s"
  shows "full_inv idx0 (job_step ext c j s)"
proof -
  have a: "search_index s = idx0" "\<not> ub s" "before_extraction (pcs s i)" for i
    using assms(2) by (simp_all add: full_inv_def)
  have "before_extraction (pcs (job_step ext c j s) i)" for i
    using a(3) [of i] a(3) [of j] a(1) assms(1)
    by (cases "pcs s j")
       (auto simp: job_step_def Let_def GetIndexFileFreeSpace_def split: if_splits)
  moreover have "search_index (job_step ext c j s) = idx0 \<and> \<not> ub (job_step ext c j s)"
    using a(3) [of j] a(1,2) assms(1)
    by (cases "pcs s j")
       (auto simp: job_step_def Let_def GetIndexFileFreeSpace_def split: if_splits)
  ultimately show ?thesis
    by (simp add: full_inv_def)
qed

lemma ub_inv_step:
  assumes "ub_inv cs s" and "j < length cs"
  shows "ub_inv cs (job_step ext (cs ! j) j s)"
proof (cases "ub s")
  case True
  with assms show ?thesis by (simp add: job_step_def)
next
  case False
  with assms(1) have none: "\<And>i. i < length cs \<Longrightarrow> pcs s i \<noteq> OutOfRange"
    by (auto simp: ub_inv_def)
  have "ub (job_step ext (cs ! j) j s) \<longleftrightarrow> pcs (job_step ext (cs ! j) j s) j = OutOfRange"
    using False none [OF assms(2)]
    by (cases "pcs s j")
       (auto simp: job_step_def Let_def AddFunction_def split: if_splits)
  moreover have "pcs (job_step ext (cs ! j) j s) i \<noteq> OutOfRange" if "i < length cs" "i \<noteq> j" for i
    using none [OF that(1)] that(2) by (simp add: job_step_others)
  ultimately show ?thesis
    unfolding ub_inv_def using assms(2) by metis
qed

lemma reported_append: "reported c out evs \<Longrightarrow> reported c out (evs @ evs2)"
  by (auto simp: reported_def list_ex_iff)

lemma report_step_self:
  assumes "case printed (pcs s j) of None \<Rightarrow> True | Some out \<Rightarrow> reported c out (stdout s)"
  shows "case printed (pcs (job_step ext c j s) j) of None \<Rightarrow> True
         | Some out \<Rightarrow> reported c out (stdout (job_step ext c j s))"
  using assms
  by (cases "pcs s j")
     (auto simp: job_step_def Let_def AddFunction_def reported_def split: if_splits sum.splits)

lemma report_inv_step:
  assumes inv: "report_inv cs s" and j: "j < length cs"
  shows "report_inv cs (job_step ext (cs ! j) j s)"
  unfolding report_inv_def
proof (intro allI impI)
  fix i
  assume i: "i < length cs"
  let ?s' = "job_step ext (cs ! j) j s"
  have old: "case printed (pcs s i) of None \<Rightarrow> True | Some out \<Rightarrow> reported (cs ! i) out (stdout s)"
    using inv i by (simp add: report_inv_def)
  show "case printed (pcs ?s' i) of None \<Rightarrow> True | Some out \<Rightarrow> reported (cs ! i) out (stdout ?s')"
  proof (cases "i = j")
    case True
    with old show ?thesis using report_step_self by blast
  next
    case False
    obtain evs where "stdout ?s' = stdout s @ evs"
      using stdout_grows by blast
    with old False show ?thesis
      by (auto simp: job_step_others reported_append split: option.splits)
  qed
qed

lemma step_busy:
  assumes "\<not> ub (job_step ext c j s)"
  shows "(in_progress (pcs (job_step ext c j s) j) = in_progress (pcs s j) \<and>
            busy (job_step ext c j s) = busy s) \<or>
         (\<not> in_progress (pcs s j) \<and> in_progress (pcs (job_step ext c j s) j) \<and>
            busy (job_step ext c j s) = Suc (busy s)) \<or>
         (in_progress (pcs s j) \<and> \<not> in_progress (pcs (job_step ext c j s) j) \<and>
            busy (job_step ext c j s) = busy s - 1)"
  using assms
  by (cases "pcs s j")
     (auto simp: job_step_def Let_def AddFunction_def split: if_splits sum.splits)

lemma busy_inv_step:
  assumes inv: "busy_inv cs s" and j: "j < length cs"
  shows "busy_inv cs (job_step ext (cs ! j) j s)"
  unfolding busy_inv_def
proof
  let ?s' = "job_step ext (cs ! j) j s"
  let ?P = "\<lambda>i. in_progress (pcs s i)" and ?Q = "\<lambda>i. in_progress (pcs ?s' i)"
  assume nub': "\<not> ub ?s'"
  then have nub: "\<not> ub s" by (auto simp: job_step_def)
  with inv have b: "busy s = length (filter ?P [0..<length cs])"
    by (simp add: busy_inv_def)
  have oth: "?Q i = ?P i" if "i \<noteq> j" for i
    using that by (simp add: job_step_others)
  from step_busy [OF nub']
  consider (same) "?Q j = ?P j" "busy ?s' = busy s"
    | (start) "\<not> ?P j" "?Q j" "busy ?s' = Suc (busy s)"
    | (stop) "?P j" "\<not> ?Q j" "busy ?s' = busy s - 1"
    by blast
  then show "busy ?s' = length (filter ?Q [0..<length cs])"
  proof cases
    case same
    have "filter ?Q [0..<length cs] = filter ?P [0..<length cs]"
      by (rule filter_upt_same [of j]) (use oth same in auto)
    with same b show ?thesis by simp
  next
    case start
    have "?Q i = (i = j \<or> ?P i)" for i
      by (cases "i = j") (use oth start in auto)
    then have "filter ?Q [0..<length cs] = filter (\<lambda>i. i = j \<or> ?P i) [0..<length cs]"
      by simp
    with start b length_filter_upt_add [of j "length cs" ?P] j show ?thesis by simp
  next
    case stop
    have "?Q i = (i \<noteq> j \<and> ?P i)" for i
      by (cases "i = j") (use oth stop in auto)
    then have "filter ?Q [0..<length cs] = filter (\<lambda>i. i \<noteq> j \<and> ?P i) [0..<length cs]"
      by simp
    with stop b length_filter_upt_del [of j "length cs" ?P] j show ?thesis by simp
  qed
qed

section \<open>The jobs that main submits\<close>

text \<open>
  Every job carries the path, the executable id, the threshold and the number of all
  functions; the functions of the jobs are the functions of the binary without those
  that the shared-block test drops, in their order.
\<close>

lemma submit_fields:
  "c \<in> set (submit ext fl fid n fs) \<Longrightarrow>
   binary_path_string c = FLAGS_input fl \<and> file_id c = fid \<and>
   minimum_size c = FLAGS_minimum_function_size fl \<and> number_of_functions c = n"
  by (induction fs) (auto split: if_splits)

lemma map_func_submit:
  "map func (submit ext fl fid n fs) =
   filter (\<lambda>f. \<not> (FLAGS_no_shared_blocks fl \<and> ContainsSharedBasicBlocks ext f)) fs"
  by (induction fs) auto

lemma jobs_fields:
  "j < length (jobs ext fl fs) \<Longrightarrow>
   binary_path_string (jobs ext fl fs ! j) = FLAGS_input fl \<and>
   file_id (jobs ext fl fs ! j) = GenerateExecutableID ext (FLAGS_input fl) \<and>
   minimum_size (jobs ext fl fs ! j) = FLAGS_minimum_function_size fl \<and>
   number_of_functions (jobs ext fl fs ! j) = length fs"
  unfolding jobs_def
  using submit_fields [OF nth_mem, of j ext fl "GenerateExecutableID ext (FLAGS_input fl)" "length fs" fs]
  by simp

lemma map_func_jobs:
  "map func (jobs ext fl fs) =
   filter (\<lambda>f. \<not> (FLAGS_no_shared_blocks fl \<and> ContainsSharedBasicBlocks ext f)) fs"
  by (simp add: jobs_def map_func_submit)

lemma length_jobs_le: "length (jobs ext fl fs) \<le> length fs"
  using map_func_jobs [of ext fl fs] by (metis length_filter_le length_map)

lemma func_job_eq:
  assumes "distinct fs" and "i < length (jobs ext fl fs)" and "j < length (jobs ext fl fs)"
    and "func (jobs ext fl fs ! i) = func (jobs ext fl fs ! j)"
  shows "i = j"
proof -
  have "distinct (map func (jobs ext fl fs))"
    using assms(1) by (simp add: map_func_jobs)
  moreover have "map func (jobs ext fl fs) ! i = map func (jobs ext fl fs) ! j"
    using assms(2,3,4) by simp
  ultimately show ?thesis
    using assms(2,3) nth_eq_iff_index_eq [of "map func (jobs ext fl fs)" i j] by simp
qed

lemma job_of_function:
  "(\<exists>j<length (jobs ext fl fs). func (jobs ext fl fs ! j) = f) \<longleftrightarrow>
   f \<in> set fs \<and> \<not> (FLAGS_no_shared_blocks fl \<and> ContainsSharedBasicBlocks ext f)"
proof -
  have "(\<exists>j<length (jobs ext fl fs). func (jobs ext fl fs ! j) = f) \<longleftrightarrow>
        f \<in> set (map func (jobs ext fl fs))"
    by (metis in_set_conv_nth length_map nth_map)
  then show ?thesis
    by (auto simp: map_func_jobs)
qed

section \<open>The invariants hold after every schedule\<close>

lemma initial_invs:
  "mutex_inv (initial ext fl out)"
  "local_inv ext cs (initial ext fl out)"
  "entries_inv ext cs (index_file ext (FLAGS_index fl)) (initial ext fl out)"
  "count_inv cs (initial ext fl out)"
  "ub_inv cs (initial ext fl out)"
  "full_inv (index_file ext (FLAGS_index fl)) (initial ext fl out)"
  by (simp_all add: mutex_inv_def local_inv_def entries_inv_def count_inv_def ub_inv_def
      full_inv_def initial_def written_def added_jobs_def)

lemma initial_room:
  "2 ^ 14 + entry_cost ext * length cs \<le> free_space (index_file ext (FLAGS_index fl)) \<Longrightarrow>
   room_inv ext cs (initial ext fl out)"
  by (simp add: room_inv_def initial_def)

lemma initial_report: "report_inv cs (initial ext fl out)"
  by (simp add: report_inv_def initial_def)

lemma pipeline_snoc:
  "j < length (jobs ext fl fs) \<Longrightarrow>
   pipeline ext fl fs (sched @ [j]) =
     job_step ext (jobs ext fl fs ! j) j (pipeline ext fl fs sched)"
  by (simp add: pipeline_def run_append)

lemma pipeline_append:
  "pipeline ext fl fs (sched @ rest) = run ext (jobs ext fl fs) rest (pipeline ext fl fs sched)"
  by (simp add: pipeline_def run_append)

lemma pipeline_mutex: "mutex_inv (pipeline ext fl fs sched)"
  unfolding pipeline_def
  by (rule run_invariant) (simp_all add: initial_invs mutex_inv_step)

lemma pipeline_local: "local_inv ext (jobs ext fl fs) (pipeline ext fl fs sched)"
  unfolding pipeline_def
  by (rule run_invariant) (simp_all add: initial_invs local_inv_step)

lemma pipeline_entries:
  "entries_inv ext (jobs ext fl fs) (index_file ext (FLAGS_index fl)) (pipeline ext fl fs sched)"
proof -
  let ?cs = "jobs ext fl fs"
  let ?P = "\<lambda>s. local_inv ext ?cs s \<and> entries_inv ext ?cs (index_file ext (FLAGS_index fl)) s"
  have "?P (pipeline ext fl fs sched)"
    unfolding pipeline_def
    by (rule run_invariant [where P = ?P])
       (simp_all add: initial_invs local_inv_step entries_inv_step)
  then show ?thesis ..
qed

lemma pipeline_count: "count_inv (jobs ext fl fs) (pipeline ext fl fs sched)"
  unfolding pipeline_def
  by (rule run_invariant) (simp_all add: initial_invs count_inv_step)

lemma pipeline_ub: "ub_inv (jobs ext fl fs) (pipeline ext fl fs sched)"
  unfolding pipeline_def
  by (rule run_invariant) (simp_all add: initial_invs ub_inv_step)

lemma pipeline_full:
  "free_space (index_file ext (FLAGS_index fl)) < 2 ^ 14 \<Longrightarrow>
   full_inv (index_file ext (FLAGS_index fl)) (pipeline ext fl fs sched)"
  unfolding pipeline_def
  by (rule run_invariant) (simp_all add: initial_invs full_inv_step)

lemma pipeline_room:
  "2 ^ 14 + entry_cost ext * length (jobs ext fl fs) \<le> free_space (index_file ext (FLAGS_index fl)) \<Longrightarrow>
   room_inv ext (jobs ext fl fs) (pipeline ext fl fs sched)"
  unfolding pipeline_def
  by (rule run_invariant) (simp_all add: initial_room room_inv_step)

lemma pipeline_report: "report_inv (jobs ext fl fs) (pipeline ext fl fs sched)"
  unfolding pipeline_def
  by (rule run_invariant) (simp_all add: initial_report report_inv_step)



text \<open>
  The two locked sections (the construction of the feature generator and the insert)
  exclude each other: two jobs that hold the mutex are the same job.
\<close>

lemma locked_sections_exclusive:
  assumes "holds_mutex (pcs (pipeline ext fl fs sched) i)"
    and "holds_mutex (pcs (pipeline ext fl fs sched) j)"
  shows "i = j"
  using pipeline_mutex [of ext fl fs sched] assms by (auto simp: mutex_inv_def)

section \<open>What the run has written and printed\<close>

lemma written_iff_added:
  "e \<in> set (written (index_file ext (FLAGS_index fl)) (pipeline ext fl fs sched)) \<longleftrightarrow>
   (\<exists>j<length (jobs ext fl fs). pcs (pipeline ext fl fs sched) j = Done Added \<and>
      e = job_entry ext (jobs ext fl fs ! j))"
proof -
  let ?s = "pipeline ext fl fs sched" and ?cs = "jobs ext fl fs"
  have "mset (written (index_file ext (FLAGS_index fl)) ?s) =
        mset (map (\<lambda>j. job_entry ext (?cs ! j)) (added_jobs ?cs ?s))"
    using pipeline_entries [of ext fl fs sched] by (simp add: entries_inv_def)
  then have "set (written (index_file ext (FLAGS_index fl)) ?s) =
        set (map (\<lambda>j. job_entry ext (?cs ! j)) (added_jobs ?cs ?s))"
    by (rule mset_eq_setD)
  then show ?thesis
    by (auto simp: added_jobs_def)
qed

lemma added_is_big:
  assumes "j < length (jobs ext fl fs)" and "pcs (pipeline ext fl fs sched) j = Done Added"
  shows "FLAGS_minimum_function_size fl < GetNumberOfBranchingNodes ext (func (jobs ext fl fs ! j))"
proof -
  have "pc_ok ext (jobs ext fl fs ! j) (free_seen (pipeline ext fl fs sched) j) (Done Added)"
    using pipeline_local [of ext fl fs sched] assms by (auto simp: local_inv_def)
  then show ?thesis
    using jobs_fields [OF assms(1)] by (simp add: big_enough_def)
qed

lemma entries_of_run:
  "entries (search_index (pipeline ext fl fs sched)) =
   entries (index_file ext (FLAGS_index fl)) @
   written (index_file ext (FLAGS_index fl)) (pipeline ext fl fs sched)"
  using pipeline_entries [of ext fl fs sched] by (simp add: entries_inv_def)

lemma mset_written:
  "mset (written (index_file ext (FLAGS_index fl)) (pipeline ext fl fs sched)) =
   mset (map (\<lambda>j. job_entry ext (jobs ext fl fs ! j))
          (added_jobs (jobs ext fl fs) (pipeline ext fl fs sched)))"
  using pipeline_entries [of ext fl fs sched] by (simp add: entries_inv_def)

lemma distinct_written:
  assumes "distinct fs"
  shows "distinct (map address (written (index_file ext (FLAGS_index fl)) (pipeline ext fl fs sched)))"
proof -
  let ?cs = "jobs ext fl fs" and ?s = "pipeline ext fl fs sched"
  let ?a = "\<lambda>j. addr (func (?cs ! j))"
  have "mset (map address (written (index_file ext (FLAGS_index fl)) ?s)) =
        image_mset address (mset (map (\<lambda>j. job_entry ext (?cs ! j)) (added_jobs ?cs ?s)))"
    using mset_written [of ext fl fs sched] by (simp only: mset_map)
  also have "\<dots> = mset (map ?a (added_jobs ?cs ?s))"
    by (simp add: job_entry_def image_mset.compositionality comp_def)
  finally have m: "mset (map address (written (index_file ext (FLAGS_index fl)) ?s)) =
        mset (map ?a (added_jobs ?cs ?s))" .
  have "inj_on ?a (set (added_jobs ?cs ?s))"
  proof (rule inj_onI)
    fix i j
    assume "i \<in> set (added_jobs ?cs ?s)" "j \<in> set (added_jobs ?cs ?s)" "?a i = ?a j"
    then have "i < length ?cs" "j < length ?cs" "func (?cs ! i) = func (?cs ! j)"
      by (auto simp: added_jobs_def addr_eq_iff)
    then show "i = j" using func_job_eq [OF assms] by blast
  qed
  then have "distinct (map ?a (added_jobs ?cs ?s))"
    by (simp add: distinct_map added_jobs_def)
  with m show ?thesis
    by (metis mset_eq_imp_distinct_iff)
qed

lemma done_reported:
  assumes "j < length (jobs ext fl fs)" and "pcs (pipeline ext fl fs sched) j = Done out"
  shows "reported (jobs ext fl fs ! j) out (stdout (pipeline ext fl fs sched))"
  using pipeline_report [of ext fl fs sched] assms by (auto simp: report_inv_def)

section \<open>Runs that drain\<close>

lemma main_Exit_0:
  assumes "main ext fl sched = Exit 0 s"
  shows "FLAGS_input fl \<noteq> [] \<and>
         (\<exists>fs. Load ext (FLAGS_format fl) (FLAGS_input fl) = Some fs \<and> fs \<noteq> [] \<and>
               s = pipeline ext fl fs sched \<and> \<not> ub s \<and> drained (jobs ext fl fs) s)"
  using assms by (auto simp: main_def Let_def split: if_splits option.splits)

lemma main_Exit_0_Load:
  assumes "main ext fl sched = Exit 0 s"
    and "Load ext (FLAGS_format fl) (FLAGS_input fl) = Some fs"
  shows "s = pipeline ext fl fs sched \<and> \<not> ub s \<and> drained (jobs ext fl fs) s"
  using main_Exit_0 [OF assms(1)] assms(2) by auto

lemma drained_no_ub:
  assumes "drained (jobs ext fl fs) (pipeline ext fl fs sched)"
  shows "\<not> ub (pipeline ext fl fs sched)"
  using pipeline_ub [of ext fl fs sched] assms by (auto simp: ub_inv_def drained_iff)

lemma main_drained:
  assumes "FLAGS_input fl \<noteq> []" and "Load ext (FLAGS_format fl) (FLAGS_input fl) = Some fs"
    and "fs \<noteq> []" and "drained (jobs ext fl fs) (pipeline ext fl fs sched)"
  shows "main ext fl sched = Exit 0 (pipeline ext fl fs sched)"
  using assms drained_no_ub [OF assms(4)] by (simp add: main_def Let_def)

lemma drained_room_added:
  assumes d: "drained cs s" and r: "room_inv ext cs s" and l: "local_inv ext cs s"
  shows "added_jobs cs s = filter (\<lambda>j. big_enough ext (cs ! j)) [0..<length cs]"
  unfolding added_jobs_def
proof (rule filter_cong [OF refl])
  fix j
  assume "j \<in> set [0..<length cs]"
  then have j: "j < length cs" by simp
  then obtain out where out: "pcs s j = Done out"
    using d by (auto simp: drained_iff)
  have "out \<noteq> Skipped_full" "out \<noteq> Out_of_space"
    using r out by (auto simp: room_inv_def)
  moreover have "pc_ok ext (cs ! j) (free_seen s j) (Done out)"
    using l j out by (auto simp: local_inv_def)
  ultimately show "(pcs s j = Done Added) = big_enough ext (cs ! j)"
    unfolding out by (cases out) simp_all
qed

lemma room_for_jobs:
  assumes "2 ^ 14 + entry_cost ext * length fs \<le> free_space (index_file ext (FLAGS_index fl))"
  shows "2 ^ 14 + entry_cost ext * length (jobs ext fl fs)
           \<le> free_space (index_file ext (FLAGS_index fl))"
proof -
  have "entry_cost ext * length (jobs ext fl fs) \<le> entry_cost ext * length fs"
    by (rule mult_le_mono2) (rule length_jobs_le)
  with assms show ?thesis by linarith
qed

lemma mset_written_drained:
  assumes "drained (jobs ext fl fs) (pipeline ext fl fs sched)"
    and "2 ^ 14 + entry_cost ext * length fs \<le> free_space (index_file ext (FLAGS_index fl))"
  shows "mset (written (index_file ext (FLAGS_index fl)) (pipeline ext fl fs sched)) =
         mset (map (\<lambda>j. job_entry ext (jobs ext fl fs ! j))
                (filter (\<lambda>j. big_enough ext (jobs ext fl fs ! j)) [0..<length (jobs ext fl fs)]))"
  using mset_written [of ext fl fs sched]
    drained_room_added [OF assms(1) pipeline_room [OF room_for_jobs [OF assms(2)]] pipeline_local]
  by simp

lemma entries_drained:
  assumes "main ext fl sched = Exit 0 s"
    and "Load ext (FLAGS_format fl) (FLAGS_input fl) = Some fs"
    and "entries (index_file ext (FLAGS_index fl)) = []"
    and "2 ^ 14 + entry_cost ext * length fs \<le> free_space (index_file ext (FLAGS_index fl))"
  shows "mset (entries (search_index s)) =
         mset (map (\<lambda>j. job_entry ext (jobs ext fl fs ! j))
                (filter (\<lambda>j. big_enough ext (jobs ext fl fs ! j)) [0..<length (jobs ext fl fs)]))"
proof -
  have s: "s = pipeline ext fl fs sched" and d: "drained (jobs ext fl fs) s"
    using main_Exit_0_Load [OF assms(1,2)] by blast+
  have "entries (search_index s) = written (index_file ext (FLAGS_index fl)) s"
    unfolding s using entries_of_run [of ext fl fs sched] by (simp only: assms(3) append_Nil)
  moreover have "mset (written (index_file ext (FLAGS_index fl)) s) =
         mset (map (\<lambda>j. job_entry ext (jobs ext fl fs ! j))
                (filter (\<lambda>j. big_enough ext (jobs ext fl fs ! j)) [0..<length (jobs ext fl fs)]))"
    using d unfolding s by (rule mset_written_drained [OF _ assms(4)])
  ultimately show ?thesis
    by (simp only:)
qed

lemma processed_at_drain:
  assumes "drained (jobs ext fl fs) (pipeline ext fl fs sched)"
  shows "processed_functions (pipeline ext fl fs sched) = length (jobs ext fl fs)"
proof -
  let ?cs = "jobs ext fl fs" and ?s = "pipeline ext fl fs sched"
  have "filter (\<lambda>j. pcs ?s j \<noteq> Queued) [0..<length ?cs] = [0..<length ?cs]"
    using assms by (auto simp: drained_iff filter_id_conv)
  then show ?thesis
    using pipeline_count [of ext fl fs sched] by (simp add: count_inv_def)
qed

section \<open>The pool can always drain\<close>






text \<open>
  In every reachable state in which some job is unfinished some job can take a step
  that brings it nearer to its end: the owner of the mutex if there is one, else a job
  in progress, else a queued job, for which a worker is then free. Hence every schedule
  has a continuation that drains the pool: the two locked sections cannot deadlock.
\<close>

lemma good_step:
  assumes g: "good cs s" and j: "j < length cs"
    and h: "\<forall>f. 2 \<le> length (CalculateFunctionSimHash ext f 128)"
  shows "good cs (job_step ext (cs ! j) j s)"
proof -
  let ?s' = "job_step ext (cs ! j) j s"
  have nub: "\<not> ub ?s'"
    using g h by (simp add: good_def step_keeps_defined)
  have "pcs ?s' i \<noteq> OutOfRange" for i
  proof (cases "i = j")
    case True
    have "pcs s j \<noteq> OutOfRange" using g by (simp add: good_def)
    with nub show ?thesis unfolding True
      by (cases "pcs s j")
         (auto simp: job_step_def Let_def AddFunction_def split: if_splits sum.splits)
  next
    case False
    with g show ?thesis by (simp add: good_def job_step_others)
  qed
  moreover have "pcs ?s' i = Queued" if "length cs \<le> i" for i
    using that g j by (simp add: good_def job_step_others)
  ultimately show ?thesis
    using g j nub by (simp add: good_def mutex_inv_step busy_inv_step)
qed

lemma moves:
  assumes "\<not> ub s" and "2 \<le> length (CalculateFunctionSimHash ext (func c) 128)"
    and "search_index_mutex s = (if holds_mutex (pcs s j) then Some j else None)"
    and "pcs s j = Queued \<longrightarrow> busy s < hardware_concurrency ext"
    and "\<not> finished (pcs s j)" and "pcs s j \<noteq> OutOfRange"
  shows "rank (pcs (job_step ext c j s) j) < rank (pcs s j)"
  using assms
  by (cases "pcs s j")
     (auto simp: job_step_def Let_def AddFunction_def finished_def split: if_splits sum.splits)

lemma some_job_moves:
  assumes g: "good cs s" and w: "0 < hardware_concurrency ext"
    and h: "\<forall>f. 2 \<le> length (CalculateFunctionSimHash ext f 128)"
    and nd: "\<not> drained cs s"
  shows "\<exists>j<length cs. rank (pcs (job_step ext (cs ! j) j s) j) < rank (pcs s j)"
proof -
  have nub: "\<not> ub s" and mi: "\<And>i. holds_mutex (pcs s i) \<longleftrightarrow> search_index_mutex s = Some i"
    and bi: "busy s = length (filter (\<lambda>j. in_progress (pcs s j)) [0..<length cs])"
    and nor: "\<And>i. pcs s i \<noteq> OutOfRange" and q: "\<And>i. length cs \<le> i \<Longrightarrow> pcs s i = Queued"
    using g by (simp_all add: good_def mutex_inv_def busy_inv_def)
  show ?thesis
  proof (cases "search_index_mutex s")
    case (Some i)
    then have hm: "holds_mutex (pcs s i)" using mi by simp
    then have i: "i < length cs" using q [of i] by (cases "i < length cs") auto
    have "\<not> finished (pcs s i)" using hm by (cases "pcs s i") (simp_all add: finished_def)
    moreover have "pcs s i \<noteq> Queued" using hm by auto
    ultimately have "rank (pcs (job_step ext (cs ! i) i s) i) < rank (pcs s i)"
      using nub h Some hm nor by (intro moves) auto
    with i show ?thesis by blast
  next
    case None
    show ?thesis
    proof (cases "\<exists>j<length cs. in_progress (pcs s j)")
      case True
      then obtain j where j: "j < length cs" "in_progress (pcs s j)" by blast
      then have "\<not> finished (pcs s j)" "pcs s j \<noteq> Queued"
        by (cases "pcs s j"; simp add: finished_def)+
      moreover have "\<not> holds_mutex (pcs s j)" using mi [of j] None by simp
      ultimately have "rank (pcs (job_step ext (cs ! j) j s) j) < rank (pcs s j)"
        using nub h None nor by (intro moves) auto
      with j show ?thesis by blast
    next
      case False
      then have "filter (\<lambda>j. in_progress (pcs s j)) [0..<length cs] = []"
        by (auto simp: filter_empty_conv)
      with bi w have b: "busy s < hardware_concurrency ext" by simp
      obtain j where j: "j < length cs" "\<not> finished (pcs s j)"
        using nd by (auto simp: drained_def list_all_iff)
      moreover have "\<not> holds_mutex (pcs s j)" using mi [of j] None by simp
      ultimately have "rank (pcs (job_step ext (cs ! j) j s) j) < rank (pcs s j)"
        using nub h None nor b by (intro moves) auto
      with j show ?thesis by blast
    qed
  qed
qed

lemma can_drain:
  assumes w: "0 < hardware_concurrency ext"
    and h: "\<forall>f. 2 \<le> length (CalculateFunctionSimHash ext f 128)"
  shows "good cs s \<Longrightarrow> \<exists>rest. drained cs (run ext cs rest s)"
proof (induction "total_rank cs s" arbitrary: s rule: less_induct)
  case less
  show ?case
  proof (cases "drained cs s")
    case True
    then have "drained cs (run ext cs [] s)" by simp
    then show ?thesis by blast
  next
    case False
    from some_job_moves [OF less.prems w h False]
    obtain j where j: "j < length cs"
      and r: "rank (pcs (job_step ext (cs ! j) j s) j) < rank (pcs s j)"
      by blast
    let ?s' = "job_step ext (cs ! j) j s"
    have "total_rank cs ?s' < total_rank cs s"
      unfolding total_rank_def
      using rank_sum_less [of j "length cs" "\<lambda>i. rank (pcs ?s' i)" "\<lambda>i. rank (pcs s i)"] j r
      by (simp add: job_step_others)
    moreover have "good cs ?s'"
      using good_step [OF less.prems j h] .
    ultimately obtain rest where "drained cs (run ext cs rest ?s')"
      using less.hyps by blast
    then have "drained cs (run ext cs (j # rest) s)"
      using j by simp
    then show ?thesis by blast
  qed
qed

lemma initial_good: "good cs (initial ext fl out)"
  by (simp add: good_def mutex_inv_def busy_inv_def initial_def)

lemma pipeline_good:
  assumes "\<forall>f. 2 \<le> length (CalculateFunctionSimHash ext f 128)"
  shows "good (jobs ext fl fs) (pipeline ext fl fs sched)"
  unfolding pipeline_def
  by (rule run_invariant) (simp_all add: initial_good good_step assms)

lemma pool_can_drain:
  assumes "0 < hardware_concurrency ext"
    and "\<forall>f. 2 \<le> length (CalculateFunctionSimHash ext f 128)"
  shows "\<exists>rest. drained (jobs ext fl fs) (pipeline ext fl fs (sched @ rest))"
  using can_drain [OF assms pipeline_good [OF assms(2)], of fl fs sched]
  by (simp add: pipeline_append)

lemma no_out_of_range:
  assumes "\<forall>f. 2 \<le> length (CalculateFunctionSimHash ext f 128)"
  shows "pcs (pipeline ext fl fs sched) j \<noteq> OutOfRange"
  using pipeline_good [OF assms, of fl fs sched] by (simp add: good_def)

section \<open>The values of the fingerprinter beyond the second\<close>

lemma job_step_hash_cong:
  assumes "take 2 (h (func c) 128) = take 2 (CalculateFunctionSimHash ext (func c) 128)"
  shows "job_step (ext\<lparr>CalculateFunctionSimHash := h\<rparr>) c j s = job_step ext c j s"
  using take_2_facts [OF assms]
  by (cases "pcs s j") (auto simp: job_step_def Let_def)

lemma run_hash_cong:
  assumes "\<forall>f. take 2 (h f 128) = take 2 (CalculateFunctionSimHash ext f 128)"
  shows "run (ext\<lparr>CalculateFunctionSimHash := h\<rparr>) cs sched s = run ext cs sched s"
  by (induction sched arbitrary: s) (simp_all add: job_step_hash_cong assms)

lemma submit_hash_cong:
  "submit (ext\<lparr>CalculateFunctionSimHash := h\<rparr>) fl fid n fs = submit ext fl fid n fs"
  by (induction fs) simp_all

lemma jobs_hash_cong: "jobs (ext\<lparr>CalculateFunctionSimHash := h\<rparr>) fl fs = jobs ext fl fs"
  by (simp add: jobs_def submit_hash_cong)

lemma initial_hash_cong: "initial (ext\<lparr>CalculateFunctionSimHash := h\<rparr>) fl out = initial ext fl out"
  by (simp add: initial_def)

lemma pipeline_hash_cong:
  assumes "\<forall>f. take 2 (h f 128) = take 2 (CalculateFunctionSimHash ext f 128)"
  shows "pipeline (ext\<lparr>CalculateFunctionSimHash := h\<rparr>) fl fs sched = pipeline ext fl fs sched"
  using run_hash_cong [of h ext, OF assms]
  by (simp add: pipeline_def jobs_hash_cong initial_hash_cong)

section \<open>The scenarios, evaluated\<close>

lemmas eval_defs = pipeline_def jobs_def initial_def job_step_def GetIndexFileFreeSpace_def
  AddFunction_def

lemma Load_A: "Load ext_A (FLAGS_format flags_A) (FLAGS_input flags_A) = Some functions_A"
  by (simp add: ext_A_def)

lemma jobs_A:
  "jobs ext_A flags_A functions_A =
    [\<lparr>binary_path_string = ''a.exe'', file_id = 0xABCD, func = Function 0x1000,
      minimum_size = 5, number_of_functions = 3\<rparr>,
     \<lparr>binary_path_string = ''a.exe'', file_id = 0xABCD, func = Function 0x3000,
      minimum_size = 5, number_of_functions = 3\<rparr>]"
  by (simp add: jobs_def ext_A_def flags_A_def functions_A_def)

lemma run_A:
  "pcs (pipeline ext_A flags_A functions_A sched_A) 0 = Done Skipped_small"
  "pcs (pipeline ext_A flags_A functions_A sched_A) (Suc 0) = Done Added"
  "processed_functions (pipeline ext_A flags_A functions_A sched_A) = 2"
  "ub (pipeline ext_A flags_A functions_A sched_A) = False"
  "search_index (pipeline ext_A flags_A functions_A sched_A) =
     \<lparr>free_space = 1046528,
      entries = [\<lparr>hash_A = 0x3001, hash_B = 0x3002, entry_file_id = 0xABCD, address = 0x3000\<rparr>]\<rparr>"
  "stdout (pipeline ext_A flags_A functions_A sched_A) =
     [Executable_id 0xABCD, Skipping_small 1 3 ''a.exe'' 0xABCD 0x1000 2,
      Adding_function 2 3 ''a.exe'' 0xABCD 0x3000 10]"
  by (simp_all add: eval_defs ext_A_def flags_A_def functions_A_def sched_A_def)

lemma drained_A: "drained (jobs ext_A flags_A functions_A) (pipeline ext_A flags_A functions_A sched_A)"
  by (simp add: jobs_A drained_def run_A finished_def)

lemma main_A: "main ext_A flags_A sched_A = Exit 0 (pipeline ext_A flags_A functions_A sched_A)"
proof -
  have "Load ext_A (FLAGS_format flags_A) (FLAGS_input flags_A) = Some functions_A"
    by (simp add: ext_A_def)
  moreover have "FLAGS_input flags_A \<noteq> []" "length functions_A \<noteq> 0"
    by (simp_all add: flags_A_def functions_A_def)
  ultimately show ?thesis
    by (simp add: main_def Let_def run_A drained_A)
qed

lemma free_seen_A: "free_seen (pipeline ext_A flags_A functions_A sched_A) (Suc 0) = Some 1048576"
  by (simp add: eval_defs ext_A_def flags_A_def functions_A_def sched_A_def)

lemma written_A:
  "written (index_file ext_A (FLAGS_index flags_A)) (pipeline ext_A flags_A functions_A sched_A) =
     [\<lparr>hash_A = 0x3001, hash_B = 0x3002, entry_file_id = 0xABCD, address = 0x3000\<rparr>]"
  by (simp add: written_def run_A) (simp add: ext_A_def)

lemma Load_B: "Load ext_B (FLAGS_format flags_R) (FLAGS_input flags_R) = Some functions_B"
  by (simp add: ext_B_def)

lemma length_jobs_B: "length (jobs ext_B flags_R functions_B) = 2"
  by (simp add: jobs_def ext_B_def flags_R_def functions_B_def)

lemma run_B1:
  "pcs (pipeline ext_B flags_R functions_B sched_B1) 0 = Done Added"
  "pcs (pipeline ext_B flags_R functions_B sched_B1) (Suc 0) = Done Added"
  "ub (pipeline ext_B flags_R functions_B sched_B1) = False"
  "entries (search_index (pipeline ext_B flags_R functions_B sched_B1)) =
     [\<lparr>hash_A = 0x1001, hash_B = 0x1002, entry_file_id = 0xABCD, address = 0x1000\<rparr>,
      \<lparr>hash_A = 0x2001, hash_B = 0x2002, entry_file_id = 0xABCD, address = 0x2000\<rparr>]"
  by (simp_all add: eval_defs ext_B_def flags_R_def functions_B_def sched_B1_def)

lemma run_B2:
  "pcs (pipeline ext_B flags_R functions_B sched_B2) 0 = Done Added"
  "pcs (pipeline ext_B flags_R functions_B sched_B2) (Suc 0) = Done Added"
  "ub (pipeline ext_B flags_R functions_B sched_B2) = False"
  "entries (search_index (pipeline ext_B flags_R functions_B sched_B2)) =
     [\<lparr>hash_A = 0x2001, hash_B = 0x2002, entry_file_id = 0xABCD, address = 0x2000\<rparr>,
      \<lparr>hash_A = 0x1001, hash_B = 0x1002, entry_file_id = 0xABCD, address = 0x1000\<rparr>]"
  by (simp_all add: eval_defs ext_B_def flags_R_def functions_B_def sched_B2_def)

lemma main_B1: "main ext_B flags_R sched_B1 = Exit 0 (pipeline ext_B flags_R functions_B sched_B1)"
  by (rule main_drained)
     (simp_all add: Load_B drained_def length_jobs_B run_B1 finished_def upt_rec,
      simp_all add: flags_R_def functions_B_def)

lemma main_B2: "main ext_B flags_R sched_B2 = Exit 0 (pipeline ext_B flags_R functions_B sched_B2)"
  by (rule main_drained)
     (simp_all add: Load_B drained_def length_jobs_B run_B2 finished_def upt_rec,
      simp_all add: flags_R_def functions_B_def)

lemma Load_R: "Load ext_R (FLAGS_format flags_R) (FLAGS_input flags_R) = Some functions_R"
  by (simp add: ext_R_def)

lemma length_jobs_R: "length (jobs ext_R flags_R functions_R) = 5"
  by (simp add: jobs_def ext_R_def flags_R_def functions_R_def)

lemma run_R:
  "pcs (pipeline ext_R flags_R functions_R sched_R) 0 = Done Added"
  "pcs (pipeline ext_R flags_R functions_R sched_R) (Suc 0) = Done Added"
  "pcs (pipeline ext_R flags_R functions_R sched_R) 2 = Done Added"
  "pcs (pipeline ext_R flags_R functions_R sched_R) 3 = Done Added"
  "pcs (pipeline ext_R flags_R functions_R sched_R) 4 = InsertLocked 0x5001 0x5002"
  "free_seen (pipeline ext_R flags_R functions_R sched_R) 4 = Some 16384"
  "ub (pipeline ext_R flags_R functions_R sched_R) = False"
  "search_index (pipeline ext_R flags_R functions_R sched_R) =
     \<lparr>free_space = 0,
      entries =
        [\<lparr>hash_A = 0x1001, hash_B = 0x1002, entry_file_id = 0xABCD, address = 0x1000\<rparr>,
         \<lparr>hash_A = 0x2001, hash_B = 0x2002, entry_file_id = 0xABCD, address = 0x2000\<rparr>,
         \<lparr>hash_A = 0x3001, hash_B = 0x3002, entry_file_id = 0xABCD, address = 0x3000\<rparr>,
         \<lparr>hash_A = 0x4001, hash_B = 0x4002, entry_file_id = 0xABCD, address = 0x4000\<rparr>]\<rparr>"
  "stdout (pipeline ext_R flags_R functions_R sched_R) =
     [Executable_id 0xABCD,
      Adding_function 1 5 ''a.exe'' 0xABCD 0x1000 10,
      Adding_function 2 5 ''a.exe'' 0xABCD 0x2000 10,
      Adding_function 3 5 ''a.exe'' 0xABCD 0x3000 10,
      Adding_function 4 5 ''a.exe'' 0xABCD 0x4000 10,
      Adding_function 5 5 ''a.exe'' 0xABCD 0x5000 10]"
  by (simp_all add: eval_defs ext_R_def flags_R_def functions_R_def sched_R_def)

lemma run_R_done:
  "pipeline ext_R flags_R functions_R (sched_R @ [4]) =
     (pipeline ext_R flags_R functions_R sched_R)
       \<lparr>stdout := stdout (pipeline ext_R flags_R functions_R sched_R) @ [No_space_left],
        search_index_mutex := None,
        pcs := (pcs (pipeline ext_R flags_R functions_R sched_R))(4 := Done Out_of_space),
        busy := busy (pipeline ext_R flags_R functions_R sched_R) - 1\<rparr>"
proof -
  have "free_space (search_index (pipeline ext_R flags_R functions_R sched_R)) < entry_cost ext_R"
    by (simp add: run_R) (simp add: ext_R_def)
  then show ?thesis
    by (simp add: pipeline_snoc length_jobs_R step_out_of_space [of _ 4 "0x5001" "0x5002"] run_R)
qed

lemma drained_R:
  "drained (jobs ext_R flags_R functions_R) (pipeline ext_R flags_R functions_R (sched_R @ [4]))"
  unfolding drained_iff length_jobs_R
proof (intro allI impI)
  fix j :: nat
  assume "j < 5"
  then consider "j = 0" | "j = 1" | "j = 2" | "j = 3" | "j = 4"
    by linarith
  then show "\<exists>out. pcs (pipeline ext_R flags_R functions_R (sched_R @ [4])) j = Done out"
    by cases (simp_all add: run_R_done run_R)
qed

lemma main_R:
  "main ext_R flags_R (sched_R @ [4]) = Exit 0 (pipeline ext_R flags_R functions_R (sched_R @ [4]))"
  by (rule main_drained [OF _ Load_R _ drained_R]) (simp_all add: flags_R_def functions_R_def)

lemma jobs_F:
  "jobs ext_F flags_A functions_A =
    [\<lparr>binary_path_string = ''a.exe'', file_id = 0xABCD, func = Function 0x1000,
      minimum_size = 5, number_of_functions = 3\<rparr>,
     \<lparr>binary_path_string = ''a.exe'', file_id = 0xABCD, func = Function 0x3000,
      minimum_size = 5, number_of_functions = 3\<rparr>]"
  by (simp add: jobs_def ext_F_def ext_A_def flags_A_def functions_A_def)

lemma run_F:
  "pcs (pipeline ext_F flags_A functions_A sched_A) 0 = Done Skipped_small"
  "pcs (pipeline ext_F flags_A functions_A sched_A) (Suc 0) = Done Skipped_full"
  "stdout (pipeline ext_F flags_A functions_A sched_A) =
     [Executable_id 0xABCD, Skipping_small 1 3 ''a.exe'' 0xABCD 0x1000 2,
      Skipping_full 2 3 ''a.exe'' 0xABCD 0x3000]"
  by (simp_all add: eval_defs ext_F_def ext_A_def flags_A_def functions_A_def sched_A_def)

lemma run_U:
  "pcs (pipeline ext_U flags_A functions_A sched_A) (Suc 0) = OutOfRange"
  "ub (pipeline ext_U flags_A functions_A sched_A) = True"
  "stdout (pipeline ext_U flags_A functions_A sched_A) =
     [Executable_id 0xABCD, Skipping_small 1 3 ''a.exe'' 0xABCD 0x1000 2,
      Adding_function 2 3 ''a.exe'' 0xABCD 0x3000 10]"
  "entries (search_index (pipeline ext_U flags_A functions_A sched_A)) = []"
  by (simp_all add: eval_defs ext_U_def ext_A_def flags_A_def functions_A_def sched_A_def)

section \<open>The properties of the specification\<close>

text \<open>
  C1, as amended. In a run that drains normally, an IndexEntry with the address of a
  function is written if and only if the function passed the shared-block and
  minimum-size filters, the free capacity that its job read at its check was at least
  the 16 KiB margin, the fingerprinter returned at least two values, and the insert of
  the job did not itself run out of space. No function yields more than one entry: the
  addresses of the written entries are pairwise distinct.

  Without the last condition the equivalence fails in the race: the fifth function
  passes both filters, its job reads 16 KiB of free capacity and gets two hash values,
  and the insert finds the index full.
\<close>

theorem entry_written_iff:
  assumes "main ext fl sched = Exit 0 s"
    and "Load ext (FLAGS_format fl) (FLAGS_input fl) = Some functions"
    and "distinct functions" and "f \<in> set functions"
  shows "(addr f \<in> address ` set (written (index_file ext (FLAGS_index fl)) s) \<longleftrightarrow>
            \<not> (FLAGS_no_shared_blocks fl \<and> ContainsSharedBasicBlocks ext f) \<and>
            FLAGS_minimum_function_size fl < GetNumberOfBranchingNodes ext f \<and>
            (\<exists>j<length (jobs ext fl functions).
                func (jobs ext fl functions ! j) = f \<and> saw_room (free_seen s j) \<and>
                pcs s j \<noteq> Done Out_of_space) \<and>
            2 \<le> length (CalculateFunctionSimHash ext f 128)) \<and>
         distinct (map address (written (index_file ext (FLAGS_index fl)) s))"
proof -
  let ?cs = "jobs ext fl functions"
  have s: "s = pipeline ext fl functions sched" and d: "drained ?cs s"
    using main_Exit_0_Load [OF assms(1,2)] by blast+
  have loc: "pc_ok ext (?cs ! j) (free_seen s j) (pcs s j)" if "j < length ?cs" for j
    using pipeline_local [of ext fl "functions" sched] that unfolding s local_inv_def by blast
  have min: "minimum_size (?cs ! j) = FLAGS_minimum_function_size fl" if "j < length ?cs" for j
    using jobs_fields [OF that] by simp
  have w: "e \<in> set (written (index_file ext (FLAGS_index fl)) s) \<longleftrightarrow>
      (\<exists>j<length ?cs. pcs s j = Done Added \<and> e = job_entry ext (?cs ! j))" for e
    unfolding s by (rule written_iff_added)
  have "addr f \<in> address ` set (written (index_file ext (FLAGS_index fl)) s) \<longleftrightarrow>
        (\<exists>e. e \<in> set (written (index_file ext (FLAGS_index fl)) s) \<and> address e = addr f)"
    by (metis (no_types, lifting) image_iff)
  also have "\<dots> \<longleftrightarrow>
        (\<exists>j<length ?cs. pcs s j = Done Added \<and> address (job_entry ext (?cs ! j)) = addr f)"
    unfolding w by blast
  also have "\<dots> \<longleftrightarrow> (\<exists>j<length ?cs. pcs s j = Done Added \<and> func (?cs ! j) = f)"
    by (simp add: job_entry_def addr_eq_iff)
  also have "\<dots> \<longleftrightarrow>
       \<not> (FLAGS_no_shared_blocks fl \<and> ContainsSharedBasicBlocks ext f) \<and>
       FLAGS_minimum_function_size fl < GetNumberOfBranchingNodes ext f \<and>
       (\<exists>j<length ?cs. func (?cs ! j) = f \<and> saw_room (free_seen s j) \<and>
           pcs s j \<noteq> Done Out_of_space) \<and>
       2 \<le> length (CalculateFunctionSimHash ext f 128)"
    (is "?L \<longleftrightarrow> ?R")
  proof
    assume ?L
    then obtain j where j: "j < length ?cs" "pcs s j = Done Added" "func (?cs ! j) = f"
      by blast
    have "\<not> (FLAGS_no_shared_blocks fl \<and> ContainsSharedBasicBlocks ext f)"
      using job_of_function [of ext fl "functions" f] j by blast
    moreover have "big_enough ext (?cs ! j) \<and> saw_room (free_seen s j) \<and>
        2 \<le> length (hashes_of ext (?cs ! j))"
      using loc [OF j(1)] j(2) by simp
    ultimately show ?R
      using j min [OF j(1)] by (auto simp: big_enough_def hashes_of_def)
  next
    assume r: ?R
    then obtain j where j: "j < length ?cs" "func (?cs ! j) = f" "saw_room (free_seen s j)"
      "pcs s j \<noteq> Done Out_of_space"
      by blast
    obtain out where out: "pcs s j = Done out"
      using d j(1) by (auto simp: drained_iff)
    have "big_enough ext (?cs ! j)"
      using r j(2) min [OF j(1)] by (simp add: big_enough_def)
    then have "out = Added"
      using loc [OF j(1)] j(3,4) unfolding out
      by (cases out) (auto simp: saw_room_def saw_full_def split: option.splits)
    with out j show ?L by blast
  qed
  finally show ?thesis
    using distinct_written [OF assms(3), of ext fl sched] unfolding s by blast
qed

theorem entry_written_iff_witness:
  "main ext_A flags_A sched_A = Exit 0 (pipeline ext_A flags_A functions_A sched_A) \<and>
   Load ext_A (FLAGS_format flags_A) (FLAGS_input flags_A) = Some functions_A \<and>
   distinct functions_A \<and> Function 0x3000 \<in> set functions_A \<and>
   addr (Function 0x3000) \<in> address ` set (written (index_file ext_A (FLAGS_index flags_A))
          (pipeline ext_A flags_A functions_A sched_A)) \<and>
   distinct (map address (written (index_file ext_A (FLAGS_index flags_A))
          (pipeline ext_A flags_A functions_A sched_A)))"
proof -
  let ?s = "pipeline ext_A flags_A functions_A sched_A"
  have d: "distinct functions_A" and m: "Function 0x3000 \<in> set functions_A"
    by (simp_all add: functions_A_def)
  have job: "Suc 0 < length (jobs ext_A flags_A functions_A) \<and>
      func (jobs ext_A flags_A functions_A ! Suc 0) = Function 0x3000 \<and>
      saw_room (free_seen ?s (Suc 0)) \<and> pcs ?s (Suc 0) \<noteq> Done Out_of_space"
    by (simp add: jobs_A free_seen_A run_A saw_room_def)
  have "\<not> (FLAGS_no_shared_blocks flags_A \<and> ContainsSharedBasicBlocks ext_A (Function 0x3000)) \<and>
        FLAGS_minimum_function_size flags_A < GetNumberOfBranchingNodes ext_A (Function 0x3000) \<and>
        2 \<le> length (CalculateFunctionSimHash ext_A (Function 0x3000) 128)"
    by (simp add: ext_A_def flags_A_def)
  with job entry_written_iff [OF main_A Load_A d m] main_A Load_A d m show ?thesis
    by blast
qed

theorem entry_written_iff_counterexample:
  "main ext_R flags_R (sched_R @ [4]) = Exit 0 (pipeline ext_R flags_R functions_R (sched_R @ [4])) \<and>
   Function 0x5000 \<in> set functions_R \<and>
   \<not> (FLAGS_no_shared_blocks flags_R \<and> ContainsSharedBasicBlocks ext_R (Function 0x5000)) \<and>
   FLAGS_minimum_function_size flags_R < GetNumberOfBranchingNodes ext_R (Function 0x5000) \<and>
   func (jobs ext_R flags_R functions_R ! 4) = Function 0x5000 \<and>
   free_seen (pipeline ext_R flags_R functions_R (sched_R @ [4])) 4 = Some 16384 \<and>
   (2 ^ 14 :: nat) \<le> 16384 \<and>
   length (CalculateFunctionSimHash ext_R (Function 0x5000) 128) = 2 \<and>
   addr (Function 0x5000) \<notin> address ` set (written (index_file ext_R (FLAGS_index flags_R))
      (pipeline ext_R flags_R functions_R (sched_R @ [4])))"
proof -
  have "written (index_file ext_R (FLAGS_index flags_R))
      (pipeline ext_R flags_R functions_R (sched_R @ [4])) =
        [\<lparr>hash_A = 0x1001, hash_B = 0x1002, entry_file_id = 0xABCD, address = 0x1000\<rparr>,
         \<lparr>hash_A = 0x2001, hash_B = 0x2002, entry_file_id = 0xABCD, address = 0x2000\<rparr>,
         \<lparr>hash_A = 0x3001, hash_B = 0x3002, entry_file_id = 0xABCD, address = 0x3000\<rparr>,
         \<lparr>hash_A = 0x4001, hash_B = 0x4002, entry_file_id = 0xABCD, address = 0x4000\<rparr>]"
    by (simp add: written_def run_R_done run_R) (simp add: ext_R_def)
  moreover have "func (jobs ext_R flags_R functions_R ! 4) = Function 0x5000"
    by (simp add: jobs_def ext_R_def flags_R_def functions_R_def)
  moreover have "free_seen (pipeline ext_R flags_R functions_R (sched_R @ [4])) 4 = Some 16384"
    by (simp add: run_R_done run_R)
  ultimately show ?thesis
    using main_R by (simp add: ext_R_def flags_R_def functions_R_def)
qed

text \<open>
  C2, as amended. For a binary with exactly three functions, run with threshold 5 and
  \<open>no_shared_blocks\<close> set, of which the first has 2 branching nodes, the second is
  marked as sharing basic blocks and the third has 10 branching nodes and no sharing,
  and an index with room, a run that drains has written exactly one entry, that of the
  third function, and the counter is 2: the function that shares blocks is skipped
  before a job is pushed, so it is never counted.
\<close>

theorem scenario_A_counts:
  assumes "main ext fl sched = Exit 0 s"
    and "Load ext (FLAGS_format fl) (FLAGS_input fl) = Some [f1, f2, f3]"
    and "FLAGS_minimum_function_size fl = 5" and "FLAGS_no_shared_blocks fl"
    and "GetNumberOfBranchingNodes ext f1 = 2" and "\<not> ContainsSharedBasicBlocks ext f1"
    and "ContainsSharedBasicBlocks ext f2"
    and "GetNumberOfBranchingNodes ext f3 = 10" and "\<not> ContainsSharedBasicBlocks ext f3"
    and "2 ^ 14 + entry_cost ext * 3 \<le> free_space (index_file ext (FLAGS_index fl))"
  shows "written (index_file ext (FLAGS_index fl)) s =
           [\<lparr>hash_A = CalculateFunctionSimHash ext f3 128 ! 0,
             hash_B = CalculateFunctionSimHash ext f3 128 ! 1,
             entry_file_id = GenerateExecutableID ext (FLAGS_input fl),
             address = addr f3\<rparr>] \<and>
         processed_functions s = 2"
proof -
  let ?fs = "[f1, f2, f3]"
  let ?c = "\<lambda>f. \<lparr>binary_path_string = FLAGS_input fl,
      file_id = GenerateExecutableID ext (FLAGS_input fl), func = f,
      minimum_size = 5, number_of_functions = 3\<rparr>"
  have cs: "jobs ext fl ?fs = [?c f1, ?c f3]"
    using assms(3,4,6,7,9) by (simp add: jobs_def)
  have s: "s = pipeline ext fl ?fs sched" and d: "drained (jobs ext fl ?fs) (pipeline ext fl ?fs sched)"
    using main_Exit_0_Load [OF assms(1,2)] by blast+
  have big: "\<not> big_enough ext (?c f1)" "big_enough ext (?c f3)"
    using assms(5,8) by (simp_all add: big_enough_def)
  have up: "[0..<2] = [0, Suc 0]" by (simp add: upt_rec)
  have "mset (written (index_file ext (FLAGS_index fl)) s) =
        mset (map (\<lambda>j. job_entry ext (jobs ext fl ?fs ! j))
               (filter (\<lambda>j. big_enough ext (jobs ext fl ?fs ! j)) [0..<length (jobs ext fl ?fs)]))"
    unfolding s using assms(10) by (intro mset_written_drained [OF d]) simp
  also have "\<dots> = {#job_entry ext (?c f3)#}"
    unfolding cs using big by (simp add: up)
  finally have "written (index_file ext (FLAGS_index fl)) s = [job_entry ext (?c f3)]"
    by (rule mset_singleton_list)
  moreover have "processed_functions s = 2"
    unfolding s using processed_at_drain [OF d] by (simp add: cs)
  ultimately show ?thesis
    by (simp add: job_entry_def hashes_of_def)
qed

theorem scenario_A_counts_witness:
  "main ext_A flags_A sched_A = Exit 0 (pipeline ext_A flags_A functions_A sched_A) \<and>
   Load ext_A (FLAGS_format flags_A) (FLAGS_input flags_A) =
     Some [Function 0x1000, Function 0x2000, Function 0x3000] \<and>
   FLAGS_minimum_function_size flags_A = 5 \<and> FLAGS_no_shared_blocks flags_A \<and>
   GetNumberOfBranchingNodes ext_A (Function 0x1000) = 2 \<and>
   \<not> ContainsSharedBasicBlocks ext_A (Function 0x1000) \<and>
   ContainsSharedBasicBlocks ext_A (Function 0x2000) \<and>
   GetNumberOfBranchingNodes ext_A (Function 0x3000) = 10 \<and>
   \<not> ContainsSharedBasicBlocks ext_A (Function 0x3000) \<and>
   2 ^ 14 + entry_cost ext_A * 3 \<le> free_space (index_file ext_A (FLAGS_index flags_A)) \<and>
   written (index_file ext_A (FLAGS_index flags_A)) (pipeline ext_A flags_A functions_A sched_A) =
     [\<lparr>hash_A = 0x3001, hash_B = 0x3002, entry_file_id = 0xABCD, address = 0x3000\<rparr>] \<and>
   processed_functions (pipeline ext_A flags_A functions_A sched_A) = 2"
proof -
  have L: "Load ext_A (FLAGS_format flags_A) (FLAGS_input flags_A) =
     Some [Function 0x1000, Function 0x2000, Function 0x3000]"
    by (simp add: ext_A_def functions_A_def)
  have h: "FLAGS_minimum_function_size flags_A = 5" "FLAGS_no_shared_blocks flags_A"
    "GetNumberOfBranchingNodes ext_A (Function 0x1000) = 2"
    "\<not> ContainsSharedBasicBlocks ext_A (Function 0x1000)"
    "ContainsSharedBasicBlocks ext_A (Function 0x2000)"
    "GetNumberOfBranchingNodes ext_A (Function 0x3000) = 10"
    "\<not> ContainsSharedBasicBlocks ext_A (Function 0x3000)"
    "2 ^ 14 + entry_cost ext_A * 3 \<le> free_space (index_file ext_A (FLAGS_index flags_A))"
    by (simp_all add: ext_A_def flags_A_def)
  have "processed_functions (pipeline ext_A flags_A functions_A sched_A) = 2"
    using scenario_A_counts [OF main_A L h] by blast
  with main_A L h written_A show ?thesis
    by blast
qed

theorem scenario_A_counts_counterexample:
  "Load ext_A (FLAGS_format flags_A) (FLAGS_input flags_A) =
     Some [Function 0x1000, Function 0x2000, Function 0x3000] \<and>
   FLAGS_minimum_function_size flags_A = 5 \<and> FLAGS_no_shared_blocks flags_A \<and>
   GetNumberOfBranchingNodes ext_A (Function 0x1000) = 2 \<and>
   ContainsSharedBasicBlocks ext_A (Function 0x2000) \<and>
   GetNumberOfBranchingNodes ext_A (Function 0x3000) = 10 \<and>
   \<not> ContainsSharedBasicBlocks ext_A (Function 0x3000) \<and>
   main ext_A flags_A sched_A = Exit 0 (pipeline ext_A flags_A functions_A sched_A) \<and>
   length (written (index_file ext_A (FLAGS_index flags_A))
             (pipeline ext_A flags_A functions_A sched_A)) = 1 \<and>
   processed_functions (pipeline ext_A flags_A functions_A sched_A) \<noteq> 3"
  by (simp add: main_A written_A run_A) (simp add: ext_A_def flags_A_def functions_A_def)

text \<open>
  C3. The call of \<^verbatim>\<open>GetIndexFileFreeSpace\<close> of line 118 is made without the mutex:
  in the race scenario, job 0 has taken \<open>search_index_mutex\<close> for its insert and has
  not yet inserted, and the next step of job 1 reads the free capacity of the index.
\<close>

theorem capacity_read_inside_insert_section:
  "hardware_concurrency ext_R = 8 \<and>
   pcs (pipeline ext_R flags_R functions_R sched_race) 0 = InsertLocked 0x1001 0x1002 \<and>
   search_index_mutex (pipeline ext_R flags_R functions_R sched_race) = Some 0 \<and>
   pcs (pipeline ext_R flags_R functions_R sched_race) (Suc 0) = SizeOK \<and>
   free_seen (pipeline ext_R flags_R functions_R sched_race) (Suc 0) = None \<and>
   pcs (pipeline ext_R flags_R functions_R (sched_race @ [1])) 0 = InsertLocked 0x1001 0x1002 \<and>
   search_index_mutex (pipeline ext_R flags_R functions_R (sched_race @ [1])) = Some 0 \<and>
   pcs (pipeline ext_R flags_R functions_R (sched_race @ [1])) (Suc 0) = Adding \<and>
   free_seen (pipeline ext_R flags_R functions_R (sched_race @ [1])) (Suc 0) = Some 16384"
  by (simp add: eval_defs ext_R_def flags_R_def functions_R_def sched_race_def)

text \<open>
  C4, as amended. When the index has less than 16 KiB free, no job ever reaches
  extraction or insertion and the index stays as it was; a job that finishes reports
  "index file full" if its function is above the size threshold and "only n branching
  nodes" otherwise, because the size test comes first.
\<close>

theorem index_full_skips:
  assumes "free_space (index_file ext (FLAGS_index fl)) < 2 ^ 14"
    and "s = pipeline ext fl functions sched"
  shows "search_index s = index_file ext (FLAGS_index fl) \<and>
         written (index_file ext (FLAGS_index fl)) s = [] \<and> \<not> ub s \<and>
         (\<forall>j. before_extraction (pcs s j)) \<and>
         (\<forall>j<length (jobs ext fl functions). \<forall>out. pcs s j = Done out \<longrightarrow>
            out = (if big_enough ext (jobs ext fl functions ! j) then Skipped_full else Skipped_small) \<and>
            reported (jobs ext fl functions ! j) out (stdout s))"
proof -
  let ?cs = "jobs ext fl functions"
  have f: "search_index s = index_file ext (FLAGS_index fl)" "\<not> ub s"
    "\<And>j. before_extraction (pcs s j)"
    using pipeline_full [OF assms(1), of "functions" sched] unfolding assms(2) full_inv_def
    by blast+
  have "out = (if big_enough ext (?cs ! j) then Skipped_full else Skipped_small) \<and>
        reported (?cs ! j) out (stdout s)"
    if j: "j < length ?cs" and out: "pcs s j = Done out" for j out
  proof -
    have "pc_ok ext (?cs ! j) (free_seen s j) (Done out)"
      using pipeline_local [of ext fl "functions" sched] j out unfolding assms(2) local_inv_def
      by metis
    moreover have "before_extraction (Done out)"
      using f(3) [of j] out by simp
    ultimately have "out = (if big_enough ext (?cs ! j) then Skipped_full else Skipped_small)"
      by (cases out) auto
    then show ?thesis
      using done_reported [of j ext fl "functions" sched out] j out unfolding assms(2) by blast
  qed
  then show ?thesis
    using f by (simp add: written_def)
qed

theorem index_full_skips_witness:
  "free_space (index_file ext_F (FLAGS_index flags_A)) < 2 ^ 14 \<and>
   search_index (pipeline ext_F flags_A functions_A sched_A) = \<lparr>free_space = 8192, entries = []\<rparr> \<and>
   written (index_file ext_F (FLAGS_index flags_A)) (pipeline ext_F flags_A functions_A sched_A) = [] \<and>
   \<not> ub (pipeline ext_F flags_A functions_A sched_A) \<and>
   pcs (pipeline ext_F flags_A functions_A sched_A) (Suc 0) = Done Skipped_full \<and>
   big_enough ext_F (jobs ext_F flags_A functions_A ! Suc 0) \<and>
   reported (jobs ext_F flags_A functions_A ! Suc 0) Skipped_full
     (stdout (pipeline ext_F flags_A functions_A sched_A))"
proof -
  let ?s = "pipeline ext_F flags_A functions_A sched_A"
  have low: "free_space (index_file ext_F (FLAGS_index flags_A)) < 2 ^ 14"
    by (simp add: ext_F_def)
  note t = index_full_skips [OF low refl, of "functions_A" sched_A]
  have idx: "index_file ext_F (FLAGS_index flags_A) = \<lparr>free_space = 8192, entries = []\<rparr>"
    by (simp add: ext_F_def)
  have j: "Suc 0 < length (jobs ext_F flags_A functions_A)"
    by (simp add: jobs_F)
  have "Skipped_full =
          (if big_enough ext_F (jobs ext_F flags_A functions_A ! Suc 0)
           then Skipped_full else Skipped_small) \<and>
        reported (jobs ext_F flags_A functions_A ! Suc 0) Skipped_full (stdout ?s)"
    using t j run_F(2) by blast
  then have "big_enough ext_F (jobs ext_F flags_A functions_A ! Suc 0) \<and>
        reported (jobs ext_F flags_A functions_A ! Suc 0) Skipped_full (stdout ?s)"
    by (simp split: if_splits)
  with t low idx run_F(2) show ?thesis
    by simp
qed

theorem index_full_skips_counterexample:
  "free_space (index_file ext_F (FLAGS_index flags_A)) = 8192 \<and>
   GetNumberOfBranchingNodes ext_F (Function 0x1000) = 2 \<and>
   func (jobs ext_F flags_A functions_A ! 0) = Function 0x1000 \<and>
   pcs (pipeline ext_F flags_A functions_A sched_A) 0 = Done Skipped_small \<and>
   stdout (pipeline ext_F flags_A functions_A sched_A) =
     [Executable_id 0xABCD, Skipping_small 1 3 ''a.exe'' 0xABCD 0x1000 2,
      Skipping_full 2 3 ''a.exe'' 0xABCD 0x3000] \<and>
   \<not> reported (jobs ext_F flags_A functions_A ! 0) Skipped_full
       (stdout (pipeline ext_F flags_A functions_A sched_A))"
  by (simp add: run_F jobs_F reported_def) (simp add: ext_F_def ext_A_def)

text \<open>
  C5, as amended. The job reads \<open>hashes[0]\<close> and \<open>hashes[1]\<close> without a check. When
  the fingerprinter returns at least two values for every function, no job reads the
  vector out of range under any schedule, and every finished job has printed the line of
  its outcome.

  With a one-element result the job reads beyond the vector at line 138 and nothing is
  reported.
\<close>

theorem two_hashes_no_fault:
  assumes "\<forall>f. 2 \<le> length (CalculateFunctionSimHash ext f 128)"
  shows "(\<forall>j. pcs (pipeline ext fl functions sched) j \<noteq> OutOfRange) \<and>
         (\<forall>j<length (jobs ext fl functions). \<forall>out.
            pcs (pipeline ext fl functions sched) j = Done out \<longrightarrow>
            reported (jobs ext fl functions ! j) out (stdout (pipeline ext fl functions sched)))"
  using no_out_of_range [OF assms] done_reported by blast

theorem two_hashes_no_fault_witness:
  "(\<forall>f. 2 \<le> length (CalculateFunctionSimHash ext_A f 128)) \<and>
   pcs (pipeline ext_A flags_A functions_A [1, 1, 1, 1, 1]) (Suc 0) = GenBuilt \<and>
   pcs (pipeline ext_A flags_A functions_A [1, 1, 1, 1, 1, 1]) (Suc 0) = Hashed 0x3001 0x3002 \<and>
   pcs (pipeline ext_A flags_A functions_A [1, 1, 1, 1, 1, 1]) (Suc 0) \<noteq> OutOfRange \<and>
   pcs (pipeline ext_A flags_A functions_A sched_A) (Suc 0) = Done Added \<and>
   reported (jobs ext_A flags_A functions_A ! Suc 0) Added
     (stdout (pipeline ext_A flags_A functions_A sched_A))"
proof -
  have h: "\<forall>f. 2 \<le> length (CalculateFunctionSimHash ext_A f 128)"
    by (simp add: ext_A_def)
  have e: "pcs (pipeline ext_A flags_A functions_A [1, 1, 1, 1, 1]) (Suc 0) = GenBuilt"
    "pcs (pipeline ext_A flags_A functions_A [1, 1, 1, 1, 1, 1]) (Suc 0) = Hashed 0x3001 0x3002"
    by (simp_all add: eval_defs ext_A_def flags_A_def functions_A_def)
  note t = two_hashes_no_fault [OF h, of flags_A "functions_A"]
  have "pcs (pipeline ext_A flags_A functions_A [1, 1, 1, 1, 1, 1]) (Suc 0) \<noteq> OutOfRange"
    using t [of "[1, 1, 1, 1, 1, 1]"] by blast
  moreover have "Suc 0 < length (jobs ext_A flags_A functions_A)"
    by (simp add: jobs_A)
  then have "reported (jobs ext_A flags_A functions_A ! Suc 0) Added
     (stdout (pipeline ext_A flags_A functions_A sched_A))"
    using t [of sched_A] run_A(2) by blast
  ultimately show ?thesis
    using h e run_A(2) by blast
qed

theorem two_hashes_no_fault_counterexample:
  "CalculateFunctionSimHash ext_U (Function 0x3000) 128 = [0x3001] \<and>
   main ext_U flags_A sched_A = Undefined_behaviour (pipeline ext_U flags_A functions_A sched_A) \<and>
   pcs (pipeline ext_U flags_A functions_A sched_A) (Suc 0) = OutOfRange \<and>
   stdout (pipeline ext_U flags_A functions_A sched_A) =
     [Executable_id 0xABCD, Skipping_small 1 3 ''a.exe'' 0xABCD 0x1000 2,
      Adding_function 2 3 ''a.exe'' 0xABCD 0x3000 10]"
proof -
  have "Load ext_U (FLAGS_format flags_A) (FLAGS_input flags_A) = Some functions_A"
    by (simp add: ext_U_def ext_A_def)
  moreover have "FLAGS_input flags_A \<noteq> []" "length functions_A \<noteq> 0"
    by (simp_all add: flags_A_def functions_A_def)
  ultimately have "main ext_U flags_A sched_A =
      Undefined_behaviour (pipeline ext_U flags_A functions_A sched_A)"
    by (simp add: main_def Let_def run_U)
  then show ?thesis
    by (simp add: run_U) (simp add: ext_U_def)
qed

text \<open>
  C6. A job that holds the lock for its insert, after its own capacity check had
  passed, while the index has less free space than the insert needs: its next step
  prints the out-of-space line, leaves the index unchanged, releases the mutex and ends
  the job normally; the other jobs are where they were; whenever the rest of the run
  drains the pool, \<open>main\<close> exits with status 0; and with a worker and a
  fingerprinter that returns two values there is a continuation that drains it.
\<close>

theorem out_of_space_is_contained:
  assumes "s = pipeline ext fl functions sched" and "s' = pipeline ext fl functions (sched @ [j])"
    and "j < length (jobs ext fl functions)"
    and "pcs s j = InsertLocked a b"
    and "free_space (search_index s) < entry_cost ext"
    and "\<not> ub s"
  shows "saw_room (free_seen s j) \<and> pcs s' j = Done Out_of_space \<and>
         stdout s' = stdout s @ [No_space_left] \<and>
         search_index s' = search_index s \<and> search_index_mutex s' = None \<and> \<not> ub s' \<and>
         (\<forall>i. i \<noteq> j \<longrightarrow> pcs s' i = pcs s i) \<and>
         (\<forall>rest. FLAGS_input fl \<noteq> [] \<longrightarrow>
            Load ext (FLAGS_format fl) (FLAGS_input fl) = Some functions \<longrightarrow>
            drained (jobs ext fl functions) (pipeline ext fl functions (sched @ j # rest)) \<longrightarrow>
            main ext fl (sched @ j # rest) = Exit 0 (pipeline ext fl functions (sched @ j # rest))) \<and>
         (0 < hardware_concurrency ext \<longrightarrow>
            (\<forall>f. 2 \<le> length (CalculateFunctionSimHash ext f 128)) \<longrightarrow>
            (\<exists>rest. drained (jobs ext fl functions)
                      (pipeline ext fl functions (sched @ j # rest))))"
proof -
  let ?cs = "jobs ext fl functions"
  have s': "s' = s\<lparr>stdout := stdout s @ [No_space_left], search_index_mutex := None,
       pcs := (pcs s)(j := Done Out_of_space), busy := busy s - 1\<rparr>"
    unfolding assms(2) pipeline_snoc [OF assms(3)]
    using step_out_of_space [OF assms(6,4,5)] unfolding assms(1) by simp
  have "pc_ok ext (?cs ! j) (free_seen s j) (InsertLocked a b)"
    using pipeline_local [of ext fl "functions" sched] assms(3,4) unfolding assms(1) local_inv_def
    by metis
  then have room: "saw_room (free_seen s j)" by simp
  have ne: "functions \<noteq> []"
    using assms(3) length_jobs_le [of ext fl "functions"] by auto
  have "main ext fl (sched @ j # rest) = Exit 0 (pipeline ext fl functions (sched @ j # rest))"
    if "FLAGS_input fl \<noteq> []" "Load ext (FLAGS_format fl) (FLAGS_input fl) = Some functions"
      "drained ?cs (pipeline ext fl functions (sched @ j # rest))" for rest
    using main_drained [OF that(1,2) ne that(3)] .
  moreover have "\<exists>rest. drained ?cs (pipeline ext fl functions (sched @ j # rest))"
    if "0 < hardware_concurrency ext" "\<forall>f. 2 \<le> length (CalculateFunctionSimHash ext f 128)"
    using pool_can_drain [OF that, of fl "functions" "sched @ [j]"] by simp
  ultimately show ?thesis
    using room assms(6) unfolding s' by simp
qed

theorem out_of_space_is_contained_witness:
  "4 < length (jobs ext_R flags_R functions_R) \<and>
   pcs (pipeline ext_R flags_R functions_R sched_R) 4 = InsertLocked 0x5001 0x5002 \<and>
   free_space (search_index (pipeline ext_R flags_R functions_R sched_R)) < entry_cost ext_R \<and>
   \<not> ub (pipeline ext_R flags_R functions_R sched_R) \<and>
   saw_room (free_seen (pipeline ext_R flags_R functions_R sched_R) 4) \<and>
   pcs (pipeline ext_R flags_R functions_R (sched_R @ [4])) 4 = Done Out_of_space \<and>
   stdout (pipeline ext_R flags_R functions_R (sched_R @ [4])) =
     stdout (pipeline ext_R flags_R functions_R sched_R) @ [No_space_left] \<and>
   search_index (pipeline ext_R flags_R functions_R (sched_R @ [4])) =
     search_index (pipeline ext_R flags_R functions_R sched_R) \<and>
   search_index_mutex (pipeline ext_R flags_R functions_R (sched_R @ [4])) = None \<and>
   \<not> ub (pipeline ext_R flags_R functions_R (sched_R @ [4])) \<and>
   pcs (pipeline ext_R flags_R functions_R (sched_R @ [4])) 0 = Done Added \<and>
   main ext_R flags_R (sched_R @ [4]) =
     Exit 0 (pipeline ext_R flags_R functions_R (sched_R @ [4]))"
proof -
  let ?s = "pipeline ext_R flags_R functions_R sched_R"
  let ?s' = "pipeline ext_R flags_R functions_R (sched_R @ [4])"
  have j: "4 < length (jobs ext_R flags_R functions_R)"
    by (simp add: length_jobs_R)
  have at: "pcs ?s 4 = InsertLocked 0x5001 0x5002" and nub: "\<not> ub ?s"
    by (simp_all add: run_R)
  have low: "free_space (search_index ?s) < entry_cost ext_R"
    by (simp add: run_R) (simp add: ext_R_def)
  note t = out_of_space_is_contained [OF refl refl j at low nub]
  have inp: "FLAGS_input flags_R \<noteq> []" by (simp add: flags_R_def)
  have "pcs ?s' 0 = pcs ?s 0" using t by simp
  then have zero: "pcs ?s' 0 = Done Added" by (simp add: run_R)
  have "drained (jobs ext_R flags_R functions_R)
          (pipeline ext_R flags_R functions_R (sched_R @ 4 # []))"
    using drained_R by simp
  with t inp Load_R
  have "main ext_R flags_R (sched_R @ 4 # []) =
        Exit 0 (pipeline ext_R flags_R functions_R (sched_R @ 4 # []))"
    by blast
  with t j at low nub zero show ?thesis
    by simp
qed

text \<open>
  C7. For every function whose branching-node count is less than or equal to the
  configured minimum-size threshold, no IndexEntry is ever produced: after any schedule,
  no entry written by the run carries the address of such a function.
\<close>

theorem small_function_never_indexed:
  assumes "GetNumberOfBranchingNodes ext f \<le> FLAGS_minimum_function_size fl"
  shows "addr f \<notin> address ` set (written (index_file ext (FLAGS_index fl))
                                     (pipeline ext fl functions sched))"
proof
  assume "addr f \<in> address ` set (written (index_file ext (FLAGS_index fl))
                                    (pipeline ext fl functions sched))"
  then obtain e where
    "e \<in> set (written (index_file ext (FLAGS_index fl)) (pipeline ext fl functions sched))"
    and a: "address e = addr f"
    by auto
  then obtain j where j: "j < length (jobs ext fl functions)"
    and added: "pcs (pipeline ext fl functions sched) j = Done Added"
    and e: "e = job_entry ext (jobs ext fl functions ! j)"
    using written_iff_added by blast
  have "FLAGS_minimum_function_size fl
          < GetNumberOfBranchingNodes ext (func (jobs ext fl functions ! j))"
    using added_is_big [OF j added] .
  with assms have "func (jobs ext fl functions ! j) \<noteq> f" by auto
  with a show False
    by (auto simp: e job_entry_def Function.expand)
qed

theorem small_function_never_indexed_witness:
  "GetNumberOfBranchingNodes ext_A (Function 0x1000) \<le> FLAGS_minimum_function_size flags_A \<and>
   written (index_file ext_A (FLAGS_index flags_A)) (pipeline ext_A flags_A functions_A sched_A) =
     [\<lparr>hash_A = 0x3001, hash_B = 0x3002, entry_file_id = 0xABCD, address = 0x3000\<rparr>] \<and>
   addr (Function 0x1000) \<notin> address ` set (written (index_file ext_A (FLAGS_index flags_A))
                  (pipeline ext_A flags_A functions_A sched_A))"
proof -
  have h: "GetNumberOfBranchingNodes ext_A (Function 0x1000) \<le> FLAGS_minimum_function_size flags_A"
    by (simp add: ext_A_def flags_A_def)
  have w: "written (index_file ext_A (FLAGS_index flags_A)) (pipeline ext_A flags_A functions_A sched_A) =
     [\<lparr>hash_A = 0x3001, hash_B = 0x3002, entry_file_id = 0xABCD, address = 0x3000\<rparr>]"
    by (simp add: written_def run_A) (simp add: ext_A_def)
  show ?thesis
    using h w small_function_never_indexed [OF h, of functions_A sched_A] by blast
qed



text \<open>
  C9. Two runs of the pipeline on the same binary and configuration, against an empty
  index with room for an entry of every function above the 16 KiB margin, that both
  drain normally, leave the same entries in the index, whatever the two schedules.
\<close>

theorem index_contents_schedule_independent:
  assumes "main ext fl sched1 = Exit 0 s1" and "main ext fl sched2 = Exit 0 s2"
    and "Load ext (FLAGS_format fl) (FLAGS_input fl) = Some functions"
    and "entries (index_file ext (FLAGS_index fl)) = []"
    and "2 ^ 14 + entry_cost ext * length functions \<le> free_space (index_file ext (FLAGS_index fl))"
  shows "mset (entries (search_index s1)) = mset (entries (search_index s2)) \<and>
         set (entries (search_index s1)) = set (entries (search_index s2))"
proof -
  have "mset (entries (search_index s1)) = mset (entries (search_index s2))"
    using entries_drained [OF assms(1,3,4,5)] entries_drained [OF assms(2,3,4,5)]
    by (simp only:)
  then show ?thesis
    using mset_eq_setD by blast
qed

theorem index_contents_schedule_independent_witness:
  "main ext_B flags_R sched_B1 = Exit 0 (pipeline ext_B flags_R functions_B sched_B1) \<and>
   main ext_B flags_R sched_B2 = Exit 0 (pipeline ext_B flags_R functions_B sched_B2) \<and>
   entries (search_index (pipeline ext_B flags_R functions_B sched_B1)) \<noteq>
     entries (search_index (pipeline ext_B flags_R functions_B sched_B2)) \<and>
   mset (entries (search_index (pipeline ext_B flags_R functions_B sched_B1))) =
     mset (entries (search_index (pipeline ext_B flags_R functions_B sched_B2))) \<and>
   set (entries (search_index (pipeline ext_B flags_R functions_B sched_B1))) =
     set (entries (search_index (pipeline ext_B flags_R functions_B sched_B2)))"
proof -
  have e: "entries (index_file ext_B (FLAGS_index flags_R)) = []"
    by (simp add: ext_B_def)
  have r: "2 ^ 14 + entry_cost ext_B * length functions_B
             \<le> free_space (index_file ext_B (FLAGS_index flags_R))"
    by (simp add: ext_B_def functions_B_def)
  have "entries (search_index (pipeline ext_B flags_R functions_B sched_B1)) \<noteq>
     entries (search_index (pipeline ext_B flags_R functions_B sched_B2))"
    by (simp add: run_B1 run_B2)
  then show ?thesis
    using main_B1 main_B2 index_contents_schedule_independent [OF main_B1 main_B2 Load_B e r]
    by blast
qed

text \<open>
  C10. The job asks the fingerprinter for 128 and uses only \<open>hashes[0]\<close> and
  \<open>hashes[1]\<close>: a fingerprinter that agrees with the given one on the first two
  values of every result for 128 gives the same run, and every written entry consists
  of the first two values for its function, the executable id and the address.
\<close>

theorem only_first_two_hashes_used:
  assumes "\<forall>f. take 2 (h f 128) = take 2 (CalculateFunctionSimHash ext f 128)"
  shows "main (ext\<lparr>CalculateFunctionSimHash := h\<rparr>) fl sched = main ext fl sched \<and>
         set (written (index_file ext (FLAGS_index fl)) (pipeline ext fl functions sched)) \<subseteq>
           (\<lambda>f. \<lparr>hash_A = CalculateFunctionSimHash ext f 128 ! 0,
                 hash_B = CalculateFunctionSimHash ext f 128 ! 1,
                 entry_file_id = GenerateExecutableID ext (FLAGS_input fl),
                 address = addr f\<rparr>) ` set functions"
proof
  show "main (ext\<lparr>CalculateFunctionSimHash := h\<rparr>) fl sched = main ext fl sched"
    using pipeline_hash_cong [of h ext, OF assms]
    by (simp add: main_def Let_def jobs_hash_cong initial_hash_cong split: option.split)
next
  let ?g = "\<lambda>f. \<lparr>hash_A = CalculateFunctionSimHash ext f 128 ! 0,
                 hash_B = CalculateFunctionSimHash ext f 128 ! 1,
                 entry_file_id = GenerateExecutableID ext (FLAGS_input fl),
                 address = addr f\<rparr>"
  show "set (written (index_file ext (FLAGS_index fl)) (pipeline ext fl functions sched))
          \<subseteq> ?g ` set functions"
  proof
    fix e
    assume "e \<in> set (written (index_file ext (FLAGS_index fl)) (pipeline ext fl functions sched))"
    then obtain j where j: "j < length (jobs ext fl functions)"
      and e: "e = job_entry ext (jobs ext fl functions ! j)"
      using written_iff_added by blast
    have "func (jobs ext fl functions ! j) \<in> set functions"
      using job_of_function [of ext fl "functions" "func (jobs ext fl functions ! j)"] j by blast
    moreover have "e = ?g (func (jobs ext fl functions ! j))"
      using jobs_fields [OF j] by (simp add: e job_entry_def hashes_of_def)
    ultimately show "e \<in> ?g ` set functions" by blast
  qed
qed

theorem only_first_two_hashes_used_witness:
  "(\<forall>f. take 2 (three_hashes f 128) = take 2 (CalculateFunctionSimHash ext_A f 128)) \<and>
   three_hashes (Function 0x3000) 128 \<noteq> CalculateFunctionSimHash ext_A (Function 0x3000) 128 \<and>
   main (ext_A\<lparr>CalculateFunctionSimHash := three_hashes\<rparr>) flags_A sched_A =
     Exit 0 (pipeline ext_A flags_A functions_A sched_A) \<and>
   written (index_file ext_A (FLAGS_index flags_A)) (pipeline ext_A flags_A functions_A sched_A) =
     [\<lparr>hash_A = 0x3001, hash_B = 0x3002, entry_file_id = 0xABCD, address = 0x3000\<rparr>]"
proof -
  have h: "\<forall>f. take 2 (three_hashes f 128) = take 2 (CalculateFunctionSimHash ext_A f 128)"
    by (simp add: three_hashes_def ext_A_def)
  have "three_hashes (Function 0x3000) 128 \<noteq> CalculateFunctionSimHash ext_A (Function 0x3000) 128"
    by (simp add: three_hashes_def ext_A_def)
  moreover have "main (ext_A\<lparr>CalculateFunctionSimHash := three_hashes\<rparr>) flags_A sched_A =
     Exit 0 (pipeline ext_A flags_A functions_A sched_A)"
    using only_first_two_hashes_used [of three_hashes ext_A flags_A sched_A "functions_A"] h main_A
    by simp
  ultimately show ?thesis
    using h written_A by blast
qed

end
